theory Spec2Isabelle
  imports Main "HOL-Library.AList"
begin

section \<open>Python values and exceptions\<close>

text \<open>
  Python values as plain data: the values that exceptions carry (the key of a
  \<open>KeyError\<close>). \<open>PObject\<close> stands for a value of any other type, with the text of its
  type. A dict is an association list in insertion order.
\<close>

datatype pyval =
    PNone
  | PBool bool
  | PInt int
  | PStr string
  | PList "pyval list"
  | PDict "(string \<times> pyval) list"
  | PObject string

text \<open>
  Every exception that the embedded functions can raise is a value of \<open>error\<close>;
  a fallible function returns \<open>error + 'a\<close> with \<open>Inl\<close> for the raise.
  \<open>StorageError\<close> stands for whatever the storage driver raises from \<open>init\<close>, and
  \<open>RecursionError\<close> is raised when the interpreter's recursion limit is reached.
\<close>

datatype error =
    IndexError
  | KeyError pyval
  | TypeError
  | AttributeError string
  | UnboundLocalError string
  | PersistenceError
  | AutoReconnect
  | StorageError
  | RecursionError

section \<open>\<open>nyuki/bus/persistence/persistence.py\<close>: the bounded in-memory queue\<close>

text \<open>
  \<open>FIFOSizedQueue\<close> has the two attributes \<open>_list\<close> and \<open>_size\<close>. The size is whatever
  integer the constructor was given (Python's unbounded \<open>int\<close>).
\<close>

record 'a FIFOSizedQueue =
  q_list :: "'a list"
  q_size :: int

definition FIFOSizedQueue_init :: "int \<Rightarrow> 'a FIFOSizedQueue" where
  "FIFOSizedQueue_init sz = \<lparr>q_list = [], q_size = sz\<rparr>"

text \<open>
  The loop of \<open>put\<close>: \<open>while len(self._list) > self._size: self._list.pop(0)\<close>.
  \<open>pop(0)\<close> on an empty list raises \<open>IndexError\<close> (reachable only for a negative size).
\<close>

fun evict :: "int \<Rightarrow> 'a list \<Rightarrow> error + 'a list" where
  "evict sz [] = (if int (length ([] :: 'a list)) > sz then Inl IndexError else Inr [])"
| "evict sz (x # xs) =
     (if int (length (x # xs)) > sz then evict sz xs else Inr (x # xs))"

definition put :: "'a FIFOSizedQueue \<Rightarrow> 'a \<Rightarrow> error + 'a FIFOSizedQueue" where
  "put q item =
     (case evict (q_size q) (q_list q) of
        Inl e \<Rightarrow> Inl e
      | Inr xs \<Rightarrow> Inr (q\<lparr>q_list := xs @ [item]\<rparr>))"

definition pop :: "'a FIFOSizedQueue \<Rightarrow> error + ('a \<times> 'a FIFOSizedQueue)" where
  "pop q =
     (case q_list q of
        [] \<Rightarrow> Inl IndexError
      | x # xs \<Rightarrow> Inr (x, q\<lparr>q_list := xs\<rparr>))"

text \<open>A sequence of \<open>put\<close> calls, stopping at the first raise.\<close>

fun puts :: "'a FIFOSizedQueue \<Rightarrow> 'a list \<Rightarrow> error + 'a FIFOSizedQueue" where
  "puts q [] = Inr q"
| "puts q (x # xs) = (case put q x of Inl e \<Rightarrow> Inl e | Inr q' \<Rightarrow> puts q' xs)"

text \<open>
  The names an instance of \<open>FIFOSizedQueue\<close> answers to: its two instance attributes, the
  property \<open>list\<close> and the methods the class body defines. Any other name raises
  \<open>AttributeError\<close>.
\<close>

definition FIFOSizedQueue_attributes :: "string list" where
  "FIFOSizedQueue_attributes =
     [''_list'', ''_size'', ''__init__'', ''list'', ''put'', ''pop'', ''empty'']"

text \<open>The class constants of \<open>BusPersistence\<close>.\<close>

definition MEMORY_TTL :: int where
  "MEMORY_TTL = 86400"

definition QUEUE_SIZE :: int where
  "QUEUE_SIZE = 1000"

section \<open>\<open>nyuki/bus/persistence/persistence.py\<close>: \<open>BusPersistence\<close>\<close>

text \<open>
  A bus event is a Python dict; its documented keys are \<open>id\<close>, \<open>status\<close>, \<open>topic\<close> and
  \<open>message\<close>, and \<open>store\<close> adds \<open>created_at\<close> (absent before: \<open>None\<close>). Timestamps
  (\<open>datetime\<close>) are integers, ordered as the datetimes are.
\<close>

type_synonym datetime = int

record event =
  ev_id :: string
  ev_status :: string
  ev_topic :: string
  ev_message :: string
  ev_created_at :: "datetime option"

text \<open>
  The events are mutable objects that the caller, the buffer and the timer callbacks share:
  the buffer holds references, and \<open>heap\<close> gives the current contents of each dict.
\<close>

type_synonym ref = nat

text \<open>
  \<open>EventStatus\<close> (module \<open>nyuki.bus.persistence.events\<close>) is an \<open>Enum\<close> whose declaration
  is outside the source tree: a member is its name and its value, and the class is the
  list of its members, taken as a parameter. \<open>EventStatus[name]\<close> looks a member up by
  name and raises \<open>KeyError\<close> for an unknown name.
\<close>

record EventStatus =
  es_name :: string
  es_value :: string

definition EventStatus_getitem :: "EventStatus list \<Rightarrow> string \<Rightarrow> error + EventStatus" where
  "EventStatus_getitem cls n =
     (case find (\<lambda>m. es_name m = n) cls of
        None \<Rightarrow> Inl (KeyError (PStr n))
      | Some m \<Rightarrow> Inr m)"

text \<open>The \<open>status\<close> argument of \<open>retrieve\<close>: \<open>None\<close>, one member, or a list of members.\<close>

datatype status_arg = NoStatus | OneStatus EventStatus | StatusList "EventStatus list"

text \<open>
  The backend (\<open>MongoBackend\<close>, a \<open>PersistenceBackend\<close>) is outside the source tree. Its
  behaviour is a parameter: what \<open>ping\<close> answers, and for each call whether it raises
  (\<open>Inl\<close> the message) or returns a value.
\<close>

record 'r PersistenceBackend =
  b_ping :: bool
  b_store :: "event \<Rightarrow> string + 'r"
  b_update :: "string \<Rightarrow> EventStatus \<Rightarrow> string + 'r"
  b_retrieve :: "datetime option \<Rightarrow> status_arg \<Rightarrow> string + 'r"

text \<open>What a coordinator method returns: \<open>None\<close>, the backend's value, or the matching events.\<close>

datatype 'r result = NoneResult | BackendResult 'r | Events "ref list"

text \<open>
  The state that the methods of \<open>BusPersistence\<close> read and write: the event dicts, the
  backend, the buffer \<open>_last_events\<close>, the callbacks registered with \<open>loop.call_later\<close>
  (delay and the event that \<open>del_event\<close> closes over) and the contexts handed to
  \<open>loop.call_exception_handler\<close>.
\<close>

record 'r BusPersistence =
  heap :: "ref \<Rightarrow> event"
  backend :: "'r PersistenceBackend option"
  last_events :: "ref FIFOSizedQueue"
  call_later :: "(int \<times> ref) list"
  exception_handler :: "error list"

definition BusPersistence_init ::
  "(ref \<Rightarrow> event) \<Rightarrow> 'r PersistenceBackend option \<Rightarrow> 'r BusPersistence" where
  "BusPersistence_init h b =
     \<lparr>heap = h, backend = b, last_events = FIFOSizedQueue_init QUEUE_SIZE,
      call_later = [], exception_handler = []\<rparr>"

text \<open>\<open>ping\<close>: \<open>None\<close> without a backend, else the backend's answer.\<close>

definition ping :: "'r BusPersistence \<Rightarrow> bool option" where
  "ping s = (case backend s of None \<Rightarrow> None | Some b \<Rightarrow> Some (b_ping b))"

text \<open>
  \<open>del_event\<close>, the closure that \<open>store\<close> schedules: \<open>self._last_events.remove(event)\<close>.
  The attribute lookup comes first; a \<open>FIFOSizedQueue\<close> has no \<open>remove\<close>.
\<close>

definition del_event :: "'r BusPersistence \<Rightarrow> ref \<Rightarrow> error + 'r BusPersistence" where
  "del_event s event =
     (if ''remove'' \<in> set FIFOSizedQueue_attributes
      then Inr (s\<lparr>last_events :=
                  (last_events s)\<lparr>q_list := remove1 event (q_list (last_events s))\<rparr>\<rparr>)
      else Inl (AttributeError ''remove''))"

text \<open>
  The event loop running the oldest registered callback: an exception that the callback
  raises does not propagate, the loop hands it to its exception handler.
\<close>

definition run_call_later :: "'r BusPersistence \<Rightarrow> 'r BusPersistence" where
  "run_call_later s =
     (case call_later s of
        [] \<Rightarrow> s
      | (delay, event) # rest \<Rightarrow>
          (case del_event (s\<lparr>call_later := rest\<rparr>) event of
             Inl e \<Rightarrow> s\<lparr>call_later := rest, exception_handler := exception_handler s @ [e]\<rparr>
           | Inr s' \<Rightarrow> s'))"

text \<open>
  \<open>store(event)\<close>, with \<open>utcnow\<close> the value of \<open>datetime.utcnow()\<close>. The stamp is written
  into the caller's dict before anything else, so it stays when the call raises: the
  function returns the outcome and the state.
\<close>

definition store ::
  "'r BusPersistence \<Rightarrow> ref \<Rightarrow> datetime \<Rightarrow> (error + 'r result) \<times> 'r BusPersistence" where
  "store s event utcnow =
     (let s1 = s\<lparr>heap := (heap s)(event := (heap s event)\<lparr>ev_created_at := Some utcnow\<rparr>)\<rparr>
      in case (ping s1, backend s1) of
           (Some True, Some b) \<Rightarrow>
             (case b_store b (heap s1 event) of
                Inl exc \<Rightarrow> (Inl PersistenceError, s1)
              | Inr r \<Rightarrow> (Inr (BackendResult r), s1))
         | _ \<Rightarrow>
             (case put (last_events s1) event of
                Inl e \<Rightarrow> (Inl e, s1)
              | Inr q \<Rightarrow>
                  (Inr NoneResult,
                   s1\<lparr>last_events := q,
                      call_later := call_later s1 @ [(MEMORY_TTL, event)]\<rparr>)))"

text \<open>
  The loop of \<open>update\<close> over the buffer: the first event whose \<open>id\<close> is \<open>uid\<close> gets the
  new status, then \<open>break\<close>.
\<close>

fun update_first :: "(ref \<Rightarrow> event) \<Rightarrow> ref list \<Rightarrow> string \<Rightarrow> string \<Rightarrow> (ref \<Rightarrow> event)" where
  "update_first h [] uid v = h"
| "update_first h (r # rs) uid v =
     (if ev_id (h r) = uid then h(r := (h r)\<lparr>ev_status := v\<rparr>)
      else update_first h rs uid v)"

definition update ::
  "'r BusPersistence \<Rightarrow> string \<Rightarrow> EventStatus \<Rightarrow> (error + 'r result) \<times> 'r BusPersistence" where
  "update s uid status =
     (case (ping s, backend s) of
        (Some True, Some b) \<Rightarrow>
          (case b_update b uid status of
             Inl exc \<Rightarrow> (Inl PersistenceError, s)
           | Inr r \<Rightarrow> (Inr (BackendResult r), s))
      | _ \<Rightarrow>
          (Inr NoneResult,
           s\<lparr>heap := update_first (heap s) (q_list (last_events s)) uid (es_value status)\<rparr>))"

text \<open>
  \<open>check_params\<close>, the predicate of \<open>retrieve\<close>. A \<open>datetime\<close> and an enum member are
  always true in a condition, \<open>None\<close> and the empty list are false. Both checks are
  computed, in this order, before the conjunction.
\<close>

definition since_check :: "datetime option \<Rightarrow> event \<Rightarrow> error + bool" where
  "since_check since item =
     (case since of
        None \<Rightarrow> Inr True
      | Some t \<Rightarrow>
          (case ev_created_at item of
             None \<Rightarrow> Inl (KeyError (PStr ''created_at''))
           | Some c \<Rightarrow> Inr (c \<ge> t)))"

definition status_check :: "EventStatus list \<Rightarrow> status_arg \<Rightarrow> event \<Rightarrow> error + bool" where
  "status_check cls status item =
     (case status of
        NoStatus \<Rightarrow> Inr True
      | StatusList [] \<Rightarrow> Inr True
      | StatusList (m # ms) \<Rightarrow>
          (case EventStatus_getitem cls (ev_status item) of
             Inl e \<Rightarrow> Inl e
           | Inr k \<Rightarrow> Inr (k \<in> set (m # ms)))
      | OneStatus m \<Rightarrow> Inr (ev_status item = es_value m))"

definition check_params ::
  "EventStatus list \<Rightarrow> datetime option \<Rightarrow> status_arg \<Rightarrow> event \<Rightarrow> error + bool" where
  "check_params cls since status item =
     (case since_check since item of
        Inl e \<Rightarrow> Inl e
      | Inr a \<Rightarrow>
          (case status_check cls status item of
             Inl e \<Rightarrow> Inl e
           | Inr b \<Rightarrow> Inr (a \<and> b)))"

text \<open>
  \<open>filter(check_params, self._last_events.list)\<close>, read to its end by the caller: the
  events that pass, in buffer order; a raise of the predicate ends the iteration.
\<close>

fun filter_events :: "(event \<Rightarrow> error + bool) \<Rightarrow> (ref \<Rightarrow> event) \<Rightarrow> ref list \<Rightarrow> error + ref list" where
  "filter_events p h [] = Inr []"
| "filter_events p h (r # rs) =
     (case p (h r) of
        Inl e \<Rightarrow> Inl e
      | Inr keep \<Rightarrow>
          (case filter_events p h rs of
             Inl e \<Rightarrow> Inl e
           | Inr out \<Rightarrow> Inr (if keep then r # out else out)))"

definition retrieve ::
  "'r BusPersistence \<Rightarrow> EventStatus list \<Rightarrow> datetime option \<Rightarrow> status_arg \<Rightarrow> error + 'r result" where
  "retrieve s cls since status =
     (case (ping s, backend s) of
        (Some True, Some b) \<Rightarrow>
          (case b_retrieve b since status of
             Inl exc \<Rightarrow> Inl PersistenceError
           | Inr r \<Rightarrow> Inr (BackendResult r))
      | _ \<Rightarrow>
          (case filter_events (check_params cls since status) (heap s) (q_list (last_events s)) of
             Inl e \<Rightarrow> Inl e
           | Inr out \<Rightarrow> Inr (Events out)))"

section \<open>The filter of \<open>retrieve\<close>\<close>

text \<open>
  The filter as claim C7 words it: \<open>created_at >= since\<close> when \<open>since\<close> is given; the
  status equal to the given member's value, or the event's status member in the given
  list, when \<open>status\<close> is given; both together; everything when neither is given.
\<close>

definition in_status_list :: "EventStatus list \<Rightarrow> EventStatus list \<Rightarrow> event \<Rightarrow> bool" where
  "in_status_list cls ms e =
     (case EventStatus_getitem cls (ev_status e) of
        Inl err \<Rightarrow> False
      | Inr k \<Rightarrow> k \<in> set ms)"

definition created_since :: "datetime option \<Rightarrow> event \<Rightarrow> bool" where
  "created_since since e =
     (case since of
        None \<Rightarrow> True
      | Some t \<Rightarrow> (case ev_created_at e of None \<Rightarrow> False | Some c \<Rightarrow> c \<ge> t))"

definition claimed_filter ::
  "EventStatus list \<Rightarrow> datetime option \<Rightarrow> status_arg \<Rightarrow> event \<Rightarrow> bool" where
  "claimed_filter cls since status e =
     (created_since since e \<and>
      (case status of
         NoStatus \<Rightarrow> True
       | OneStatus m \<Rightarrow> ev_status e = es_value m
       | StatusList ms \<Rightarrow> in_status_list cls ms e))"

text \<open>The filter of the code: an empty status list filters nothing.\<close>

definition memory_filter ::
  "EventStatus list \<Rightarrow> datetime option \<Rightarrow> status_arg \<Rightarrow> event \<Rightarrow> bool" where
  "memory_filter cls since status e =
     (created_since since e \<and>
      (case status of
         NoStatus \<Rightarrow> True
       | OneStatus m \<Rightarrow> ev_status e = es_value m
       | StatusList ms \<Rightarrow> ms = [] \<or> in_status_list cls ms e))"

text \<open>
  The events that the predicate can read: stamped when \<open>since\<close> is given, and with a
  status that names a member of the enum when a non-empty list is given.
\<close>

definition readable :: "EventStatus list \<Rightarrow> datetime option \<Rightarrow> status_arg \<Rightarrow> event \<Rightarrow> bool" where
  "readable cls since status e =
     ((since = None \<or> ev_created_at e \<noteq> None) \<and>
      (case status of
         StatusList (m # ms) \<Rightarrow> ev_status e \<in> set (map es_name cls)
       | _ \<Rightarrow> True))"

section \<open>\<open>nyuki/utils/mongo.py\<close>: \<open>MongoManager\<close>\<close>

definition DATABASE_PREFIX :: string where
  "DATABASE_PREFIX = ''org-''"

definition DEFAULT_DATABASE :: string where
  "DEFAULT_DATABASE = ''default''"

text \<open>\<open>s.startswith(p)\<close>.\<close>

definition startswith :: "string \<Rightarrow> string \<Rightarrow> bool" where
  "startswith s p = (take (length p) s = p)"

text \<open>
  \<open>s.replace(old, new)\<close>: every occurrence of \<open>old\<close>, found from left to right without
  overlap, is replaced. For the empty \<open>old\<close>, \<open>new\<close> goes before every character and at
  the end.
\<close>

function replace_scan :: "string \<Rightarrow> string \<Rightarrow> string \<Rightarrow> string" where
  "replace_scan old new [] = []"
| "replace_scan old new (c # cs) =
     (if old \<noteq> [] \<and> startswith (c # cs) old
      then new @ replace_scan old new (drop (length old) (c # cs))
      else c # replace_scan old new cs)"
  by pat_completeness auto
termination
  by (relation "measure (\<lambda>(old, new, s). length s)") (auto simp: neq_Nil_conv)

definition replace :: "string \<Rightarrow> string \<Rightarrow> string \<Rightarrow> string" where
  "replace s old new =
     (if old = [] then concat (map (\<lambda>c. new @ [c]) s) @ new
      else replace_scan old new s)"

text \<open>
  \<open>_db_name(name)\<close>: \<open>name or DEFAULT_DATABASE\<close> takes the default for \<open>None\<close> and for
  the empty string.
\<close>

definition db_name :: "string option \<Rightarrow> string" where
  "db_name name =
     DATABASE_PREFIX @ (case name of None \<Rightarrow> DEFAULT_DATABASE
                        | Some n \<Rightarrow> if n = [] then DEFAULT_DATABASE else n)"

text \<open>\<open>list_databases\<close>, given the names that \<open>database_names()\<close> returned.\<close>

definition list_databases :: "string list \<Rightarrow> string list" where
  "list_databases names =
     map (\<lambda>name. replace name DATABASE_PREFIX [])
       (filter (\<lambda>name. startswith name DATABASE_PREFIX) names)"

section \<open>\<open>nyuki/workflow/workflow.py\<close>: shared objects and \<open>WorkflowInstance.report\<close>\<close>

text \<open>
  Templates, reports and the \<open>exec\<close> dicts are dicts that several holders share and that
  the code writes in place: dicts are objects in a store, and a value refers to a dict by
  its address. Lists are never written by this code and stay values. \<open>HObject\<close> stands
  for a value of any type that \<open>sanitize_workflow_exec\<close> does not list, with the text
  that its type formats to. \<open>next_ref\<close> is the first address not yet in use: the objects
  that exist are those below it.
\<close>

datatype hval =
    HNone
  | HBool bool
  | HInt int
  | HStr string
  | HList "hval list"
  | HRef nat
  | HObject string

record store =
  objs :: "nat \<Rightarrow> (string \<times> hval) list"
  next_ref :: nat

text \<open>
  \<open>{**a, **b}\<close> on the entries (also \<open>a.update(b)\<close>): the entries of \<open>b\<close> are set in \<open>a\<close>
  one after the other, an existing key keeping its place.
\<close>

definition dict_merge :: "('k \<times> 'v) list \<Rightarrow> ('k \<times> 'v) list \<Rightarrow> ('k \<times> 'v) list" where
  "dict_merge a b = foldl (\<lambda>d (k, v). AList.update k v d) a b"

text \<open>A new dict object (a dict display).\<close>

definition alloc :: "store \<Rightarrow> (string \<times> hval) list \<Rightarrow> nat \<times> store" where
  "alloc h d = (next_ref h, h\<lparr>objs := (objs h)(next_ref h := d), next_ref := Suc (next_ref h)\<rparr>)"

text \<open>The value of a key in an exception, and a value used as a dict key.\<close>

definition key_value :: "hval \<Rightarrow> pyval" where
  "key_value v =
     (case v of
        HNone \<Rightarrow> PNone
      | HBool b \<Rightarrow> PBool b
      | HInt i \<Rightarrow> PInt i
      | HStr s \<Rightarrow> PStr s
      | HObject ty \<Rightarrow> PObject ty
      | _ \<Rightarrow> PNone)"

definition h_dict_key :: "hval \<Rightarrow> error + hval" where
  "h_dict_key v =
     (case v of
        HList xs \<Rightarrow> Inl TypeError
      | HRef a \<Rightarrow> Inl TypeError
      | HBool b \<Rightarrow> Inr (HInt (if b then 1 else 0))
      | _ \<Rightarrow> Inr v)"

definition h_getitem :: "(string \<times> hval) list \<Rightarrow> string \<Rightarrow> error + hval" where
  "h_getitem d k = (case map_of d k of None \<Rightarrow> Inl (KeyError (PStr k)) | Some v \<Rightarrow> Inr v)"

definition h_iterate :: "store \<Rightarrow> hval \<Rightarrow> error + hval list" where
  "h_iterate h v =
     (case v of
        HList xs \<Rightarrow> Inr xs
      | HRef a \<Rightarrow> Inr (map (\<lambda>(k, x). HStr k) (objs h a))
      | HStr s \<Rightarrow> Inr (map (\<lambda>c. HStr [c]) s)
      | _ \<Rightarrow> Inl TypeError)"

definition h_task_id :: "store \<Rightarrow> hval \<Rightarrow> error + hval" where
  "h_task_id h task = (case task of HRef a \<Rightarrow> h_getitem (objs h a) ''id'' | _ \<Rightarrow> Inl TypeError)"

text \<open>
  \<open>tasks = {task['id']: task for task in template['tasks']}\<close>: the values are the
  template's own task dicts. The dict \<open>tasks\<close> and the copy \<open>template\<close> are local to the
  call and out of reach after it, so they are kept as values and take no address.
\<close>

fun h_index_tasks :: "store \<Rightarrow> (hval \<times> hval) list \<Rightarrow> hval list \<Rightarrow> error + (hval \<times> hval) list" where
  "h_index_tasks h tasks [] = Inr tasks"
| "h_index_tasks h tasks (task # rest) =
     (case h_task_id h task of
        Inl e \<Rightarrow> Inl e
      | Inr i \<Rightarrow>
          (case h_dict_key i of
             Inl e \<Rightarrow> Inl e
           | Inr k \<Rightarrow> h_index_tasks h (AList.update k task tasks) rest))"

text \<open>
  The loop over \<open>inst['tasks']\<close>: each \<open>{**tasks[task['id']], **task}\<close> is a new dict, and
  only the local \<open>tasks\<close> is assigned to.
\<close>

fun h_merge_tasks ::
  "(hval \<times> hval) list \<Rightarrow> hval list \<Rightarrow> store \<Rightarrow> error + ((hval \<times> hval) list \<times> store)" where
  "h_merge_tasks tasks [] h = Inr (tasks, h)"
| "h_merge_tasks tasks (task # rest) h =
     (case h_task_id h task of
        Inl e \<Rightarrow> Inl e
      | Inr i \<Rightarrow>
          (case h_dict_key i of
             Inl e \<Rightarrow> Inl e
           | Inr k \<Rightarrow>
               (case map_of tasks k of
                  None \<Rightarrow> Inl (KeyError (key_value i))
                | Some static \<Rightarrow>
                    (case (static, task) of
                       (HRef st, HRef dyn) \<Rightarrow>
                         (case alloc h (dict_merge (objs h st) (objs h dyn)) of
                            (a, h') \<Rightarrow> h_merge_tasks (AList.update k (HRef a) tasks) rest h')
                     | _ \<Rightarrow> Inl TypeError))))"

text \<open>
  \<open>report\<close>, given the addresses of \<open>self._template\<close>, of the dict that
  \<open>self._instance.report()\<close> returned and of \<open>self._exec\<close>. The only write to an object
  that exists before the call is \<open>inst['exec'].update(self._exec)\<close>. The result is the
  address of the returned dict or the exception, and the store after the call. (When the
  loop raises, the dicts it has built are out of reach and are left out of the store.)
\<close>

definition report_store :: "store \<Rightarrow> nat \<Rightarrow> nat \<Rightarrow> nat \<Rightarrow> (error + nat) \<times> store" where
  "report_store h self_template inst self_exec =
     (case h_getitem (objs h self_template) ''tasks'' of
        Inl e \<Rightarrow> (Inl e, h)
      | Inr tt \<Rightarrow>
     (case h_iterate h tt of
        Inl e \<Rightarrow> (Inl e, h)
      | Inr template_tasks \<Rightarrow>
     (case h_index_tasks h [] template_tasks of
        Inl e \<Rightarrow> (Inl e, h)
      | Inr tasks \<Rightarrow>
     (case h_getitem (objs h inst) ''exec'' of
        Inl e \<Rightarrow> (Inl e, h)
      | Inr (HRef ex) \<Rightarrow>
          (let h1 = h\<lparr>objs := (objs h)(ex := dict_merge (objs h ex) (objs h self_exec))\<rparr>
           in case h_getitem (objs h1 inst) ''tasks'' of
                Inl e \<Rightarrow> (Inl e, h1)
              | Inr it \<Rightarrow>
             (case h_iterate h1 it of
                Inl e \<Rightarrow> (Inl e, h1)
              | Inr inst_tasks \<Rightarrow>
             (case h_merge_tasks tasks inst_tasks h1 of
                Inl e \<Rightarrow> (Inl e, h1)
              | Inr (merged, h2) \<Rightarrow>
             (case h_getitem (objs h2 inst) ''exec'' of
                Inl e \<Rightarrow> (Inl e, h2)
              | Inr inst_exec \<Rightarrow>
                  (case alloc h2
                          (AList.update ''tasks'' (HList (map snd merged))
                             (AList.update ''exec'' inst_exec (objs h2 self_template))) of
                     (a, h3) \<Rightarrow> (Inr a, h3))))))
      | Inr other \<Rightarrow> (Inl (AttributeError ''update''), h)))))"

text \<open>
  The dict key of a task held by reference (\<open>None\<close> when \<open>task['id']\<close> raises or is
  unhashable), and the dicts of the tasks of a list that have a given key, in order.
\<close>

definition ref_key :: "store \<Rightarrow> nat \<Rightarrow> hval option" where
  "ref_key h r =
     (case h_task_id h (HRef r) of
        Inl e \<Rightarrow> None
      | Inr i \<Rightarrow> (case h_dict_key i of Inl e \<Rightarrow> None | Inr k \<Rightarrow> Some k))"

definition dyn_states :: "store \<Rightarrow> hval option \<Rightarrow> nat list \<Rightarrow> (string \<times> hval) list list" where
  "dyn_states h k drefs = map (objs h) (filter (\<lambda>d. ref_key h d = k) drefs)"

text \<open>
  A well-formed input of \<open>report\<close>: the template's \<open>tasks\<close> and the instance report's
  \<open>tasks\<close> are lists of dicts, each with a hashable \<open>id\<close>; the template's ids are pairwise
  different; every task of the instance report has the id of a template task; all the
  objects exist; and the \<open>exec\<close> dict of the instance report is an object of its own,
  none of the task dicts, nor the template, nor the report dict itself.
\<close>

definition report_input_ok ::
  "store \<Rightarrow> nat \<Rightarrow> nat \<Rightarrow> nat \<Rightarrow> nat list \<Rightarrow> nat list \<Rightarrow> nat \<Rightarrow> bool" where
  "report_input_ok h self_template inst self_exec trefs drefs ex =
     (self_template < next_ref h \<and> inst < next_ref h \<and> self_exec < next_ref h
      \<and> ex < next_ref h \<and> ex \<noteq> self_template \<and> ex \<noteq> inst
      \<and> map_of (objs h self_template) ''tasks'' = Some (HList (map HRef trefs))
      \<and> map_of (objs h inst) ''exec'' = Some (HRef ex)
      \<and> map_of (objs h inst) ''tasks'' = Some (HList (map HRef drefs))
      \<and> list_all (\<lambda>r. r < next_ref h \<and> r \<noteq> ex \<and> ref_key h r \<noteq> None) (trefs @ drefs)
      \<and> distinct (map (ref_key h) trefs)
      \<and> list_all (\<lambda>d. ref_key h d \<in> set (map (ref_key h) trefs)) drefs)"

section \<open>\<open>nyuki/workflow/workflow.py\<close>: \<open>sanitize_workflow_exec\<close>\<close>

text \<open>A \<open>for\<close> loop over a list whose body writes to the store and may raise.\<close>

fun for_each :: "('x \<Rightarrow> 's \<Rightarrow> error option \<times> 's) \<Rightarrow> 'x list \<Rightarrow> 's \<Rightarrow> error option \<times> 's" where
  "for_each body [] s = (None, s)"
| "for_each body (x # xs) s =
     (case body x s of
        (Some e, s') \<Rightarrow> (Some e, s')
      | (None, s') \<Rightarrow> for_each body xs s')"

text \<open>
  The function rewrites its argument in place and returns it. A value of a type outside
  the list becomes a string. For a dict, every entry is assigned the sanitized form of
  its value (\<open>obj[key] = sanitize_workflow_exec(value)\<close>, a write to the dict object
  itself, whoever else holds it). For a list the loop only rebinds its variable: a
  direct item of another type stays, while the dicts among the items are still rewritten.
  The first argument is the depth of calls that the interpreter still allows: the
  function calls itself for every nested value, and a cyclic structure ends in
  \<open>RecursionError\<close>. What has been written before a raise stays written.
\<close>

fun sanitize_workflow_exec :: "nat \<Rightarrow> store \<Rightarrow> hval \<Rightarrow> (error + hval) \<times> store" where
  "sanitize_workflow_exec 0 h obj = (Inl RecursionError, h)"
| "sanitize_workflow_exec (Suc depth) h obj =
     (case obj of
        HObject ty \<Rightarrow> (Inr (HStr (''Internal server data: '' @ ty)), h)
      | HRef a \<Rightarrow>
          (case for_each
                  (\<lambda>key h0.
                     case map_of (objs h0 a) key of
                       None \<Rightarrow> (None, h0)
                     | Some v \<Rightarrow>
                         (case sanitize_workflow_exec depth h0 v of
                            (Inl e, h1) \<Rightarrow> (Some e, h1)
                          | (Inr v', h1) \<Rightarrow>
                              (None, h1\<lparr>objs := (objs h1)(a := AList.update key v' (objs h1 a))\<rparr>)))
                  (map fst (objs h a)) h of
             (Some e, h') \<Rightarrow> (Inl e, h')
           | (None, h') \<Rightarrow> (Inr (HRef a), h'))
      | HList xs \<Rightarrow>
          (case for_each
                  (\<lambda>item h0.
                     case sanitize_workflow_exec depth h0 item of
                       (Inl e, h1) \<Rightarrow> (Some e, h1)
                     | (Inr item', h1) \<Rightarrow> (None, h1))
                  xs h of
             (Some e, h') \<Rightarrow> (Inl e, h')
           | (None, h') \<Rightarrow> (Inr (HList xs), h'))
      | _ \<Rightarrow> (Inr obj, h))"

section \<open>\<open>nyuki/workflow/workflow.py\<close>: \<open>WorkflowInstance\<close>\<close>

text \<open>
  The instance is a \<open>tukio\<close> workflow, outside the source tree: its \<open>uid\<close> and the
  address of the dict that its \<open>report()\<close> returns (the engine builds that dict). A
  \<open>WorkflowInstance\<close> holds the address of the template dict it was given, the instance,
  its organization and the address of its own dict \<open>_exec\<close>.
\<close>

record Workflow =
  uid :: string
  tukio_report :: nat

record WorkflowInstance =
  template :: nat
  wf_instance :: Workflow
  organization :: "string option"
  exec :: nat

definition ALLOWED_EXEC_KEYS :: "string list" where
  "ALLOWED_EXEC_KEYS = [''requester'', ''track'']"

text \<open>\<open>WorkflowInstance.report()\<close>.\<close>

definition report :: "store \<Rightarrow> WorkflowInstance \<Rightarrow> (error + nat) \<times> store" where
  "report h self = report_store h (template self) (tukio_report (wf_instance self)) (exec self)"

section \<open>\<open>nyuki/workflow/workflow.py\<close>: \<open>WorkflowNyuki\<close>\<close>

text \<open>
  A websocket client, with the \<open>X-Surycat-Organization\<close> header of its request
  (\<open>None\<close> when the header is absent).
\<close>

record client =
  client_id :: nat
  header_organization :: "string option"

text \<open>
  An engine event: \<open>event.source.as_dict()\<close> with its entry \<open>workflow_exec_id\<close> apart,
  \<open>event.data['type']\<close> and \<open>event.data.get('content')\<close>. The type is one of the values of
  \<open>tukio\<close>'s \<open>WorkflowExecState\<close>; the code tells \<open>begin\<close>, \<open>end\<close> and \<open>error\<close> from the rest.
\<close>

datatype WorkflowExecState =
  state_begin | state_progress | state_end | state_error | state_other string

record engine_event =
  workflow_exec_id :: string
  source_fields :: "(string \<times> hval) list"
  data_type :: WorkflowExecState
  data_content :: "hval option"

text \<open>
  The payload sent to the websocket clients. \<open>data\<close> is \<open>event.data.get('content') or {}\<close>:
  the content when it is true, else a new empty dict. \<open>template\<close>, the address of the
  record's template, is present on \<open>begin\<close> only.
\<close>

datatype payload_data = Content hval | EmptyDict

record payload =
  p_type :: WorkflowExecState
  p_data :: payload_data
  p_source :: "(string \<times> hval) list"
  p_timestamp :: string
  p_template :: "nat option"

text \<open>
  What a handler call meets outside the nyuki: whether the \<open>ping\<close> command of
  \<open>_DatabaseContext.__aenter__\<close> succeeds, whether the storage's \<open>init\<close> does, and the
  depth of calls that the interpreter allows to \<open>sanitize_workflow_exec\<close>.
\<close>

record environment =
  ping_ok :: bool
  init_ok :: bool
  recursion_limit :: nat

text \<open>
  The attributes of the nyuki that the handlers use, and the objects they share: the
  store of dicts, the registry (organization, then execution id), the websocket clients
  per organization, the names in \<open>mongo_manager._databases\<close>, the documents handed to
  \<open>storage.instances.insert\<close> (with the database name) and the calls of \<open>websocket.send\<close>.
\<close>

record WorkflowNyuki =
  objects :: store
  running_workflows :: "(string option \<times> (string \<times> WorkflowInstance) list) list"
  ws_clients :: "(string option \<times> client list) list"
  databases :: "string list"
  inserted :: "(string \<times> hval) list"
  sent :: "(client list \<times> payload) list"

definition WorkflowNyuki_init :: "store \<Rightarrow> WorkflowNyuki" where
  "WorkflowNyuki_init h =
     \<lparr>objects = h, running_workflows = [], ws_clients = [], databases = [], inserted = [],
      sent = []\<rparr>"

text \<open>\<open>d.get(org, {})\<close> and \<open>d.get(org, [])\<close>.\<close>

definition get_or_empty :: "('k \<times> 'v list) list \<Rightarrow> 'k \<Rightarrow> 'v list" where
  "get_or_empty d k = (case map_of d k of None \<Rightarrow> [] | Some xs \<Rightarrow> xs)"

text \<open>Python's truth value; a dict is true when it has an entry.\<close>

definition truthy :: "store \<Rightarrow> hval \<Rightarrow> bool" where
  "truthy h v =
     (case v of
        HNone \<Rightarrow> False
      | HBool b \<Rightarrow> b
      | HInt i \<Rightarrow> i \<noteq> 0
      | HStr s \<Rightarrow> s \<noteq> []
      | HList xs \<Rightarrow> xs \<noteq> []
      | HRef a \<Rightarrow> objs h a \<noteq> []
      | HObject ty \<Rightarrow> True)"

definition org_key :: "string option \<Rightarrow> pyval" where
  "org_key org = (case org of None \<Rightarrow> PNone | Some n \<Rightarrow> PStr n)"

text \<open>
  \<open>new_workflow\<close>: the constructor builds the dict \<open>_exec\<close> from the keyword arguments that
  are allowed, and the pair is stored under its organization and the instance's uid. (The
  constructor also sets the attribute \<open>organization\<close> of the \<open>tukio\<close> instance, which
  nothing here reads.)
\<close>

definition new_workflow ::
  "WorkflowNyuki \<Rightarrow> nat \<Rightarrow> Workflow \<Rightarrow> string option \<Rightarrow> (string \<times> hval) list
     \<Rightarrow> WorkflowInstance \<times> WorkflowNyuki" where
  "new_workflow s tmpl inst org kwargs =
     (case alloc (objects s) (filter (\<lambda>(key, v). key \<in> set ALLOWED_EXEC_KEYS) kwargs) of
        (a, h) \<Rightarrow>
          (let wflow = \<lparr>template = tmpl, wf_instance = inst, organization = org, exec = a\<rparr>
           in (wflow,
               s\<lparr>objects := h,
                 running_workflows :=
                   AList.update org
                     (AList.update (uid inst) wflow (get_or_empty (running_workflows s) org))
                     (running_workflows s)\<rparr>)))"

text \<open>
  The lookup loop of \<open>report_workflow\<close>: the first organization, in the order of the
  registry, that has the execution id; \<open>None\<close> when the loop ends without binding \<open>wflow\<close>.
\<close>

fun find_wflow ::
  "(string option \<times> (string \<times> WorkflowInstance) list) list \<Rightarrow> string \<Rightarrow> WorkflowInstance option" where
  "find_wflow [] exec_id = None"
| "find_wflow ((org, org_workflows) # rest) exec_id =
     (case map_of org_workflows exec_id of
        Some wflow \<Rightarrow> Some wflow
      | None \<Rightarrow> find_wflow rest exec_id)"

text \<open>\<open>del self.running_workflows[org][exec_id]\<close>.\<close>

definition del_workflow ::
  "(string option \<times> (string \<times> WorkflowInstance) list) list \<Rightarrow> string option \<Rightarrow> string
     \<Rightarrow> error + (string option \<times> (string \<times> WorkflowInstance) list) list" where
  "del_workflow rw org exec_id =
     (case map_of rw org of
        None \<Rightarrow> Inl (KeyError (org_key org))
      | Some org_workflows \<Rightarrow>
          (case map_of org_workflows exec_id of
             None \<Rightarrow> Inl (KeyError (PStr exec_id))
           | Some w \<Rightarrow> Inr (AList.update org (AList.delete exec_id org_workflows) rw)))"

text \<open>
  The terminal branch. \<open>db_context\<close> registers the database name when it is new, and
  entering the context pings the server (\<open>AutoReconnect\<close> on failure) and runs the
  storage's \<open>init\<close> for a new name. Then the report is built and sanitized in place,
  \<open>insert\<close> is scheduled with it, and the record is deleted. Every write to the store stays
  when a later step raises.
\<close>

definition finalize ::
  "environment \<Rightarrow> WorkflowNyuki \<Rightarrow> WorkflowInstance \<Rightarrow> string \<Rightarrow> (error + unit) \<times> WorkflowNyuki" where
  "finalize env s wflow exec_id =
     (let name = db_name (organization wflow);
          init = (name \<notin> set (databases s));
          s1 = s\<lparr>databases := (if init then databases s @ [name] else databases s)\<rparr>
      in if \<not> ping_ok env then (Inl AutoReconnect, s1)
         else if init \<and> \<not> init_ok env then (Inl StorageError, s1)
         else
           (case report (objects s1) wflow of
              (Inl e, h1) \<Rightarrow> (Inl e, s1\<lparr>objects := h1\<rparr>)
            | (Inr a, h1) \<Rightarrow>
                (case sanitize_workflow_exec (recursion_limit env) h1 (HRef a) of
                   (Inl e, h2) \<Rightarrow> (Inl e, s1\<lparr>objects := h2\<rparr>)
                 | (Inr doc, h2) \<Rightarrow>
                     (let s2 = s1\<lparr>objects := h2, inserted := inserted s1 @ [(name, doc)]\<rparr>
                      in case del_workflow (running_workflows s2) (organization wflow) exec_id of
                           Inl e \<Rightarrow> (Inl e, s2)
                         | Inr rw \<Rightarrow> (Inr (), s2\<lparr>running_workflows := rw\<rparr>)))))"

text \<open>\<open>wflow.exec.get(key)\<close>.\<close>

definition exec_get :: "store \<Rightarrow> WorkflowInstance \<Rightarrow> string \<Rightarrow> hval" where
  "exec_get h wflow key = (case map_of (objs h (exec wflow)) key of None \<Rightarrow> HNone | Some v \<Rightarrow> v)"

text \<open>
  The dict \<open>payload\<close> that \<open>report_workflow\<close> builds, with the requester written into the
  source, and \<open>utcnow\<close> the text of \<open>datetime.utcnow().isoformat()\<close>.
\<close>

definition payload_of ::
  "store \<Rightarrow> engine_event \<Rightarrow> WorkflowInstance \<Rightarrow> hval \<Rightarrow> string \<Rightarrow> payload" where
  "payload_of h event wflow requester utcnow =
     \<lparr>p_type = data_type event,
      p_data = (case data_content event of
                  None \<Rightarrow> EmptyDict
                | Some c \<Rightarrow> if truthy h c then Content c else EmptyDict),
      p_source =
        AList.update ''workflow_exec_requester'' requester
          ((''workflow_exec_id'', HStr (workflow_exec_id event)) # source_fields event),
      p_timestamp = utcnow,
      p_template = (if data_type event = state_begin then Some (template wflow) else None)\<rparr>"

text \<open>
  \<open>report_workflow(event)\<close>. When no organization has the execution id, \<open>wflow\<close> is unbound
  at its first use. The requester is read (\<open>wflow.exec.get('requester')\<close>) before the
  terminal branch, the payload is built after it. The broadcast goes to
  \<open>self.ws_clients.get(wflow.organization, [])\<close>.
\<close>

definition report_workflow ::
  "environment \<Rightarrow> WorkflowNyuki \<Rightarrow> engine_event \<Rightarrow> string \<Rightarrow> (error + unit) \<times> WorkflowNyuki" where
  "report_workflow env s event utcnow =
     (let exec_id = workflow_exec_id event
      in case find_wflow (running_workflows s) exec_id of
           None \<Rightarrow> (Inl (UnboundLocalError ''wflow''), s)
         | Some wflow \<Rightarrow>
             (let requester = exec_get (objects s) wflow ''requester''
              in case (if data_type event = state_end \<or> data_type event = state_error
                       then finalize env s wflow exec_id else (Inr (), s)) of
                   (Inl e, s1) \<Rightarrow> (Inl e, s1)
                 | (Inr u, s1) \<Rightarrow>
                     (Inr (),
                      s1\<lparr>sent := sent s1 @
                           [(get_or_empty (ws_clients s1) (organization wflow),
                             payload_of (objects s1) event wflow requester utcnow)]\<rparr>)))"

text \<open>
  \<open>websocket_ready(client)\<close>: the client is registered under the organization of its
  header, then the reports of that organization's records are built, in the order of the
  registry; the first report that raises ends the call.
\<close>

fun reports :: "store \<Rightarrow> WorkflowInstance list \<Rightarrow> (error + hval list) \<times> store" where
  "reports h [] = (Inr [], h)"
| "reports h (w # ws) =
     (case report h w of
        (Inl e, h1) \<Rightarrow> (Inl e, h1)
      | (Inr a, h1) \<Rightarrow>
          (case reports h1 ws of
             (Inl e, h2) \<Rightarrow> (Inl e, h2)
           | (Inr rs, h2) \<Rightarrow> (Inr (HRef a # rs), h2)))"

definition websocket_ready ::
  "WorkflowNyuki \<Rightarrow> client \<Rightarrow> (error + hval list) \<times> WorkflowNyuki" where
  "websocket_ready s c =
     (let org = header_organization c;
          s1 = s\<lparr>ws_clients :=
                  AList.update org (get_or_empty (ws_clients s) org @ [c]) (ws_clients s)\<rparr>
      in case reports (objects s1) (map snd (get_or_empty (running_workflows s1) org)) of
           (r, h) \<Rightarrow> (r, s1\<lparr>objects := h\<rparr>))"

text \<open>\<open>websocket_close(client)\<close>: the client leaves every list that has it.\<close>

definition websocket_close :: "WorkflowNyuki \<Rightarrow> client \<Rightarrow> WorkflowNyuki" where
  "websocket_close s c =
     s\<lparr>ws_clients := map (\<lambda>(org, clients). (org, remove1 c clients)) (ws_clients s)\<rparr>"

section \<open>Invariants of the registry and of the client lists\<close>

text \<open>
  Both structures are dicts of dicts or lists: keys are unique. A record is stored under
  its own organization and its instance's uid; a client is listed under the organization
  of its header.
\<close>

definition registry_ok :: "(string option \<times> (string \<times> WorkflowInstance) list) list \<Rightarrow> bool" where
  "registry_ok rw =
     (distinct (map fst rw) \<and>
      list_all (\<lambda>(org, org_workflows).
          distinct (map fst org_workflows) \<and>
          list_all (\<lambda>(exec_id, w). organization w = org \<and> uid (wf_instance w) = exec_id)
            org_workflows) rw)"

definition clients_ok :: "(string option \<times> client list) list \<Rightarrow> bool" where
  "clients_ok ws =
     (distinct (map fst ws) \<and>
      list_all (\<lambda>(org, clients). list_all (\<lambda>c. header_organization c = org) clients) ws)"


definition lookup_record ::
  "(string option \<times> (string \<times> WorkflowInstance) list) list \<Rightarrow> string option \<Rightarrow> string
     \<Rightarrow> WorkflowInstance option" where
  "lookup_record rw org exec_id =
     (case map_of rw org of None \<Rightarrow> None | Some org_workflows \<Rightarrow> map_of org_workflows exec_id)"

text \<open>The states that the handlers produce from the initial one.\<close>

inductive reachable :: "WorkflowNyuki \<Rightarrow> bool" where
  start: "reachable (WorkflowNyuki_init h)"
| registered: "reachable s \<Longrightarrow> reachable (snd (new_workflow s tmpl inst org kwargs))"
| reported: "reachable s \<Longrightarrow> reachable (snd (report_workflow env s event utcnow))"
| connected: "reachable s \<Longrightarrow> reachable (snd (websocket_ready s c))"
| closed: "reachable s \<Longrightarrow> reachable (websocket_close s c)"

section \<open>Example states of the event coordinator\<close>

definition ex_bus_event :: "string \<Rightarrow> string \<Rightarrow> event" where
  "ex_bus_event i st = \<lparr>ev_id = i, ev_status = st, ev_topic = ''muc'', ev_message = ''{}'',
                    ev_created_at = None\<rparr>"

definition PENDING :: EventStatus where "PENDING = \<lparr>es_name = ''PENDING'', es_value = ''PENDING''\<rparr>"
definition SENT :: EventStatus where "SENT = \<lparr>es_name = ''SENT'', es_value = ''SENT''\<rparr>"
definition FAILED :: EventStatus where "FAILED = \<lparr>es_name = ''FAILED'', es_value = ''FAILED''\<rparr>"

definition ex_EventStatus :: "EventStatus list" where
  "ex_EventStatus = [FAILED, PENDING, SENT]"

definition ex_heap :: "ref \<Rightarrow> event" where
  "ex_heap r = (if r = 0 then ex_bus_event ''e1'' ''PENDING''
                else if r = 1 then ex_bus_event ''e2'' ''SENT''
                else ex_bus_event ''e1'' ''FAILED'')"

definition ex_offline :: "unit BusPersistence" where
  "ex_offline = BusPersistence_init ex_heap None"

definition ex_buffered :: "unit BusPersistence" where
  "ex_buffered = snd (store (snd (store (snd (store ex_offline 0 100)) 1 200)) 2 300)"

definition ex_rejecting_backend :: "unit PersistenceBackend" where
  "ex_rejecting_backend =
     \<lparr>b_ping = True, b_store = (\<lambda>e. Inl ''write refused''),
      b_update = (\<lambda>uid st. Inl ''write refused''),
      b_retrieve = (\<lambda>since st. Inl ''read refused'')\<rparr>"

definition ex_online :: "unit BusPersistence" where
  "ex_online = BusPersistence_init ex_heap (Some ex_rejecting_backend)"

section \<open>An example store\<close>

text \<open>
  The template at address 10 with its two task dicts (11, 12), the instance report at 13
  with its \<open>exec\<close> dict (14) and the state of task \<open>t1\<close> (15), and \<open>self._exec\<close> at 16.
\<close>

definition ex_store :: store where
  "ex_store =
     \<lparr>objs = (\<lambda>a.
        if a = 10 then [(''id'', HStr ''tpl''), (''title'', HStr ''Demo''),
                        (''tasks'', HList [HRef 11, HRef 12])]
        else if a = 11 then [(''id'', HStr ''t1''), (''title'', HStr ''First'')]
        else if a = 12 then [(''id'', HStr ''t2''), (''title'', HStr ''Second'')]
        else if a = 13 then [(''exec'', HRef 14), (''tasks'', HList [HRef 15])]
        else if a = 14 then [(''id'', HStr ''x1''), (''state'', HStr ''end'')]
        else if a = 15 then [(''id'', HStr ''t1''), (''status'', HStr ''done''),
                             (''outputs'', HObject ''Event'')]
        else if a = 16 then [(''requester'', HStr ''ann'')]
        else []),
      next_ref = 17\<rparr>"

text \<open>
  Two inputs outside the well-formed ones: both template tasks with the id \<open>t1\<close> (and no
  dynamic state), and a dynamic state with the id \<open>t9\<close> of no template task.
\<close>

definition ex_repeated_id :: store where
  "ex_repeated_id =
     ex_store\<lparr>objs := (objs ex_store)
       (12 := [(''id'', HStr ''t1''), (''title'', HStr ''Second'')],
        13 := [(''exec'', HRef 14), (''tasks'', HList [])])\<rparr>"

definition ex_unknown_id :: store where
  "ex_unknown_id =
     ex_store\<lparr>objs := (objs ex_store)
       (15 := [(''id'', HStr ''t9''), (''status'', HStr ''done'')])\<rparr>"

section \<open>Example states of the workflow nyuki\<close>

text \<open>
  The objects before any record: one template at address 20 with its task dicts (21, 22;
  the second holds a value that is no JSON value), the report dicts of two instances \<open>x1\<close>
  (23, with \<open>exec\<close> 24 and the state 25 of task \<open>t1\<close>) and \<open>x2\<close> (26, with \<open>exec\<close> 27 and no
  task state), and the report dict of a second instance with the uid \<open>x1\<close> (28, \<open>exec\<close> 29).
\<close>

definition ex_objects :: store where
  "ex_objects =
     \<lparr>objs = (\<lambda>a.
        if a = 20 then [(''id'', HStr ''tpl''), (''title'', HStr ''Demo''),
                        (''tasks'', HList [HRef 21, HRef 22])]
        else if a = 21 then [(''id'', HStr ''t1''), (''title'', HStr ''First'')]
        else if a = 22 then [(''id'', HStr ''t2''), (''title'', HStr ''Second''),
                             (''config'', HObject ''Decimal'')]
        else if a = 23 then [(''exec'', HRef 24), (''tasks'', HList [HRef 25])]
        else if a = 24 then [(''id'', HStr ''x1''), (''state'', HStr ''progress'')]
        else if a = 25 then [(''id'', HStr ''t1''), (''status'', HStr ''done'')]
        else if a = 26 then [(''exec'', HRef 27), (''tasks'', HList [])]
        else if a = 27 then [(''id'', HStr ''x2''), (''state'', HStr ''end'')]
        else if a = 28 then [(''exec'', HRef 29), (''tasks'', HList [])]
        else if a = 29 then [(''id'', HStr ''x1''), (''state'', HStr ''progress'')]
        else []),
      next_ref = 30\<rparr>"

definition ex_alice :: client where
  "ex_alice = \<lparr>client_id = 1, header_organization = Some ''acme''\<rparr>"

definition ex_bob :: client where
  "ex_bob = \<lparr>client_id = 2, header_organization = Some ''globex''\<rparr>"

definition ex_carol :: client where
  "ex_carol = \<lparr>client_id = 3, header_organization = Some ''acme''\<rparr>"

text \<open>
  Two clients connect, then \<open>x1\<close> is registered for \<open>acme\<close> and \<open>x2\<close> for \<open>globex\<close>, both with
  the template at 20.
\<close>

definition ex_connected :: WorkflowNyuki where
  "ex_connected =
     snd (websocket_ready (snd (websocket_ready (WorkflowNyuki_init ex_objects) ex_alice)) ex_bob)"

definition ex_nyuki :: WorkflowNyuki where
  "ex_nyuki =
     snd (new_workflow
       (snd (new_workflow ex_connected 20 \<lparr>uid = ''x1'', tukio_report = 23\<rparr>
               (Some ''acme'') [(''requester'', HStr ''ann''), (''debug'', HBool True)]))
       20 \<lparr>uid = ''x2'', tukio_report = 26\<rparr> (Some ''globex'') [])"

text \<open>The two records of \<open>ex_nyuki\<close>, with their \<open>_exec\<close> dicts at the addresses 30 and 31.\<close>

definition ex_record_x1 :: WorkflowInstance where
  "ex_record_x1 =
     \<lparr>template = 20, wf_instance = \<lparr>uid = ''x1'', tukio_report = 23\<rparr>,
      organization = Some ''acme'', exec = 30\<rparr>"

definition ex_record_x2 :: WorkflowInstance where
  "ex_record_x2 =
     \<lparr>template = 20, wf_instance = \<lparr>uid = ''x2'', tukio_report = 26\<rparr>,
      organization = Some ''globex'', exec = 31\<rparr>"

text \<open>The store of \<open>ex_nyuki\<close>: the two \<open>_exec\<close> dicts added.\<close>

definition ex_nyuki_objects :: store where
  "ex_nyuki_objects =
     \<lparr>objs = (objs ex_objects)(30 := [(''requester'', HStr ''ann'')], 31 := []),
      next_ref = 32\<rparr>"

text \<open>
  The same two clients, and two instances with the uid \<open>x1\<close>: one registered for \<open>acme\<close>,
  then one for \<open>globex\<close>.
\<close>

definition ex_two_orgs :: WorkflowNyuki where
  "ex_two_orgs =
     snd (new_workflow
       (snd (new_workflow ex_connected 20 \<lparr>uid = ''x1'', tukio_report = 23\<rparr>
               (Some ''acme'') []))
       20 \<lparr>uid = ''x1'', tukio_report = 28\<rparr> (Some ''globex'') [])"

definition ex_engine_event :: "string \<Rightarrow> WorkflowExecState \<Rightarrow> engine_event" where
  "ex_engine_event e t =
     \<lparr>workflow_exec_id = e, source_fields = [(''workflow_template_id'', HStr ''tpl'')],
      data_type = t, data_content = None\<rparr>"

definition ex_mongo :: environment where
  "ex_mongo = \<lparr>ping_ok = True, init_ok = True, recursion_limit = 10\<rparr>"

section \<open>Properties of the queue\<close>

lemma evict_drop:
  "0 \<le> sz \<Longrightarrow> evict sz xs = Inr (drop (length xs - nat sz) xs)"
proof (induction xs)
  case Nil
  then show ?case by simp
next
  case (Cons x xs)
  show ?case
  proof (cases "int (length (x # xs)) > sz")
    case True
    then have "length (x # xs) - nat sz = Suc (length xs - nat sz)"
      using Cons.prems by (simp add: Suc_diff_le nat_le_iff)
    with True Cons show ?thesis by simp
  next
    case False
    then show ?thesis by simp
  qed
qed

lemma put_list:
  "0 \<le> q_size q \<Longrightarrow>
   put q x = Inr (q\<lparr>q_list := drop (length (q_list q) - nat (q_size q)) (q_list q) @ [x]\<rparr>)"
  by (simp add: put_def evict_drop)

lemma puts_snoc:
  "puts q (xs @ [x]) = (case puts q xs of Inl e \<Rightarrow> Inl e | Inr q' \<Rightarrow> put q' x)"
  by (induction xs arbitrary: q) (auto split: sum.splits)

text \<open>
  Starting from the empty queue, any sequence of \<open>put\<close> calls leaves the last
  \<open>size + 1\<close> items: the loop tests \<open>len > size\<close> before the append, so a queue holding
  exactly \<open>size\<close> items is not trimmed and grows to \<open>size + 1\<close>.
\<close>

lemma puts_retained:
  assumes "0 \<le> sz"
  shows "puts (FIFOSizedQueue_init sz) xs =
         Inr \<lparr>q_list = drop (length xs - (nat sz + 1)) xs, q_size = sz\<rparr>"
proof (induction xs rule: rev_induct)
  case Nil
  then show ?case by (simp add: FIFOSizedQueue_init_def)
next
  case (snoc x xs)
  let ?ys = "drop (length xs - (nat sz + 1)) xs"
  let ?q = "\<lparr>q_list = ?ys, q_size = sz\<rparr>"
  have len: "length ?ys = min (length xs) (nat sz + 1)" by auto
  have idx: "length ?ys - nat sz + (length xs - (nat sz + 1)) = length (xs @ [x]) - (nat sz + 1)"
    unfolding len min_def by (cases "length xs \<le> nat sz + 1") simp_all
  have kept: "drop (length ?ys - nat sz) ?ys = drop (length (xs @ [x]) - (nat sz + 1)) xs"
    using idx by (simp only: drop_drop)
  have "puts (FIFOSizedQueue_init sz) (xs @ [x]) = put ?q x"
    by (simp add: puts_snoc snoc)
  also have "\<dots> = Inr (?q\<lparr>q_list := drop (length ?ys - nat sz) ?ys @ [x]\<rparr>)"
    using assms put_list[of ?q x] by simp
  also have "\<dots> = Inr \<lparr>q_list = drop (length (xs @ [x]) - (nat sz + 1)) (xs @ [x]), q_size = sz\<rparr>"
    unfolding kept by simp
  finally show ?case .
qed

text \<open>
  Claim C1. The claim says that the buffer never holds more than its capacity (1000) and
  that it retains exactly the newest 1000 items. On the code, 1001 \<open>put\<close> calls on the
  empty queue of \<open>BusPersistence\<close> succeed and leave all 1001 items in the buffer: its
  length exceeds \<open>QUEUE_SIZE\<close>, and the oldest item has not been evicted.
\<close>

theorem put_exceeds_queue_size:
  "\<exists>q. puts (FIFOSizedQueue_init QUEUE_SIZE) (map int [0..<1001]) = Inr q
       \<and> q_list q = map int [0..<1001]
       \<and> length (q_list q) = 1001
       \<and> int (length (q_list q)) > QUEUE_SIZE"
  using puts_retained [of QUEUE_SIZE "map int [0..<1001]"]
  by (simp add: QUEUE_SIZE_def)

section \<open>Properties of the coordinator\<close>

lemma ping_offline [simp]: "ping (BusPersistence_init h None) = None"
  by (simp add: ping_def BusPersistence_init_def)

text \<open>The in-memory branch of \<open>store\<close>, for the buffer of a \<open>BusPersistence\<close>.\<close>

lemma store_in_memory:
  assumes "ping s \<noteq> Some True" and "0 \<le> q_size (last_events s)"
  shows "store s event utcnow =
         (Inr NoneResult,
          s\<lparr>heap := (heap s)(event := (heap s event)\<lparr>ev_created_at := Some utcnow\<rparr>),
            last_events := (last_events s)\<lparr>q_list :=
               drop (length (q_list (last_events s)) - nat (q_size (last_events s)))
                 (q_list (last_events s)) @ [event]\<rparr>,
            call_later := call_later s @ [(MEMORY_TTL, event)]\<rparr>)"
proof -
  let ?s1 = "s\<lparr>heap := (heap s)(event := (heap s event)\<lparr>ev_created_at := Some utcnow\<rparr>)\<rparr>"
  have p: "ping ?s1 = ping s" by (simp add: ping_def)
  have q: "put (last_events ?s1) event =
           Inr ((last_events s)\<lparr>q_list :=
               drop (length (q_list (last_events s)) - nat (q_size (last_events s)))
                 (q_list (last_events s)) @ [event]\<rparr>)"
    using assms(2) by (simp add: put_list)
  show ?thesis
    using assms(1) p q
    by (cases "ping s"; cases "backend s") (auto simp: store_def Let_def ping_def)
qed

text \<open>
  Claim C2. Without a healthy backend, \<open>store\<close> stamps the event, appends it to the
  buffer, registers \<open>del_event\<close> with the delay \<open>MEMORY_TTL\<close> = 86400 and returns
  \<open>None\<close>. When the loop runs that callback, \<open>self._last_events.remove(event)\<close> raises
  \<open>AttributeError\<close> (the queue class defines no \<open>remove\<close>): the exception goes to the
  loop's exception handler, and the event is still in the buffer.
\<close>

theorem del_event_raises_attribute_error:
  "\<exists>s1. store ex_offline 0 100 = (Inr NoneResult, s1)
        \<and> ev_created_at (heap s1 0) = Some 100
        \<and> q_list (last_events s1) = [0]
        \<and> call_later s1 = [(86400, 0)]
        \<and> del_event s1 0 = Inl (AttributeError ''remove'')
        \<and> q_list (last_events (run_call_later s1)) = [0]
        \<and> exception_handler (run_call_later s1) = [AttributeError ''remove'']"
  by (simp add: store_in_memory ex_offline_def BusPersistence_init_def FIFOSizedQueue_init_def
      QUEUE_SIZE_def MEMORY_TTL_def ping_def del_event_def run_call_later_def
      FIFOSizedQueue_attributes_def)

text \<open>
  Claim C9, as stated, fails: with a healthy backend that refuses the write, \<open>store\<close> and
  \<open>update\<close> raise \<open>PersistenceError\<close> to their caller, and nothing reaches the loop's
  exception handler.
\<close>

theorem write_through_failure_is_raised:
  "fst (store ex_online 0 100) = Inl PersistenceError
   \<and> exception_handler (snd (store ex_online 0 100)) = []
   \<and> fst (update ex_online ''e1'' SENT) = Inl PersistenceError
   \<and> exception_handler (snd (update ex_online ''e1'' SENT)) = []"
  by (simp add: store_def update_def ping_def ex_online_def BusPersistence_init_def
      ex_rejecting_backend_def Let_def)

text \<open>
  Claim C9, amended. When the backend is healthy and refuses the write, \<open>store\<close> and
  \<open>update\<close> raise \<open>PersistenceError\<close> synchronously to the caller; the loop's exception
  handler is not called, the buffer is not touched, and the only effect is the stamp
  \<open>created_at\<close> that \<open>store\<close> has already written.
\<close>

theorem write_through_failure:
  assumes "backend s = Some b" and "b_ping b"
  shows "(b_store b ((heap s event)\<lparr>ev_created_at := Some utcnow\<rparr>) = Inl exc \<longrightarrow>
            store s event utcnow =
              (Inl PersistenceError,
               s\<lparr>heap := (heap s)(event := (heap s event)\<lparr>ev_created_at := Some utcnow\<rparr>)\<rparr>))
       \<and> (b_update b event_id status = Inl exc \<longrightarrow>
            update s event_id status = (Inl PersistenceError, s))"
  using assms by (simp add: store_def update_def ping_def Let_def)

theorem write_through_failure_witness:
  "backend ex_online = Some ex_rejecting_backend \<and> b_ping ex_rejecting_backend
   \<and> b_store ex_rejecting_backend ((heap ex_online 0)\<lparr>ev_created_at := Some 100\<rparr>)
       = Inl ''write refused''
   \<and> b_update ex_rejecting_backend ''e1'' SENT = Inl ''write refused''
   \<and> store ex_online 0 100 =
       (Inl PersistenceError,
        ex_online\<lparr>heap := (heap ex_online)(0 := (heap ex_online 0)\<lparr>ev_created_at := Some 100\<rparr>)\<rparr>)
   \<and> update ex_online ''e1'' SENT = (Inl PersistenceError, ex_online)"
proof -
  have b: "backend ex_online = Some ex_rejecting_backend"
    by (simp add: ex_online_def BusPersistence_init_def)
  have p: "b_ping ex_rejecting_backend"
    by (simp add: ex_rejecting_backend_def)
  have st: "b_store ex_rejecting_backend ((heap ex_online 0)\<lparr>ev_created_at := Some 100\<rparr>)
            = Inl ''write refused''"
    by (simp add: ex_rejecting_backend_def)
  have up: "b_update ex_rejecting_backend ''e1'' SENT = Inl ''write refused''"
    by (simp add: ex_rejecting_backend_def)
  show ?thesis
    using write_through_failure [OF b p, where event = 0 and utcnow = 100
        and exc = "''write refused''" and event_id = "''e1''" and status = SENT] b p st up
    by simp
qed

text \<open>The loop of \<open>update\<close> changes the first buffered event with the given id, if any.\<close>

lemma update_first_find:
  "update_first h rs event_id v =
     (case find (\<lambda>r. ev_id (h r) = event_id) rs of
        None \<Rightarrow> h
      | Some r \<Rightarrow> h(r := (h r)\<lparr>ev_status := v\<rparr>))"
  by (induction rs) auto

text \<open>
  Claim C10. Without a healthy backend, \<open>update(event_id, status)\<close> returns \<open>None\<close> and never
  raises. If no buffered event has the id, the whole state is unchanged. Otherwise the
  state changes in one place only: the dict of the first buffered event with that id
  has its \<open>status\<close> replaced by \<open>status.value\<close>; every other dict, every other field of
  that dict, the buffer itself and the rest of the state are as before.
\<close>

theorem update_in_memory_frame:
  assumes "ping s \<noteq> Some True"
  shows "update s event_id status =
         (Inr NoneResult,
          (case find (\<lambda>r. ev_id (heap s r) = event_id) (q_list (last_events s)) of
             None \<Rightarrow> s
           | Some r \<Rightarrow> s\<lparr>heap := (heap s)(r := (heap s r)\<lparr>ev_status := es_value status\<rparr>)\<rparr>))"
proof -
  have "update s event_id status =
        (Inr NoneResult,
         s\<lparr>heap := update_first (heap s) (q_list (last_events s)) event_id (es_value status)\<rparr>)"
    using assms by (cases "ping s"; cases "backend s") (auto simp: update_def ping_def)
  then show ?thesis
    by (simp add: update_first_find split: option.split)
qed

lemma ex_buffered_eq:
  "ex_buffered =
     \<lparr>heap = ex_heap
        (0 := (ex_heap 0)\<lparr>ev_created_at := Some 100\<rparr>,
         1 := (ex_heap 1)\<lparr>ev_created_at := Some 200\<rparr>,
         2 := (ex_heap 2)\<lparr>ev_created_at := Some 300\<rparr>),
      backend = None,
      last_events = \<lparr>q_list = [0, 1, 2], q_size = 1000\<rparr>,
      call_later = [(86400, 0), (86400, 1), (86400, 2)],
      exception_handler = []\<rparr>"
  by (simp add: ex_buffered_def store_in_memory ex_offline_def BusPersistence_init_def
      FIFOSizedQueue_init_def QUEUE_SIZE_def MEMORY_TTL_def ping_def)

theorem update_in_memory_frame_witness:
  "ping ex_buffered \<noteq> Some True
   \<and> update ex_buffered ''e1'' SENT =
       (Inr NoneResult,
        ex_buffered\<lparr>heap := (heap ex_buffered)(0 := (heap ex_buffered 0)\<lparr>ev_status := ''SENT''\<rparr>)\<rparr>)
   \<and> update ex_buffered ''e9'' SENT = (Inr NoneResult, ex_buffered)"
proof -
  have p: "ping ex_buffered \<noteq> Some True"
    by (simp add: ex_buffered_eq ping_def)
  show ?thesis
    using p update_in_memory_frame [OF p, of "''e1''" SENT]
      update_in_memory_frame [OF p, of "''e9''" SENT]
    by (simp add: ex_buffered_eq ex_heap_def ex_bus_event_def SENT_def)
qed

section \<open>Properties of \<open>retrieve\<close>\<close>

lemma getitem_named:
  "n \<in> set (map es_name cls) \<Longrightarrow> \<exists>k. EventStatus_getitem cls n = Inr k"
  by (induction cls) (auto simp: EventStatus_getitem_def)

lemma check_params_readable:
  assumes "readable cls since status e"
  shows "check_params cls since status e = Inr (memory_filter cls since status e)"
proof -
  have a: "since_check since e = Inr (created_since since e)"
    using assms by (auto simp: readable_def since_check_def created_since_def split: option.splits)
  have b: "status_check cls status e =
           Inr (case status of
                  NoStatus \<Rightarrow> True
                | OneStatus m \<Rightarrow> ev_status e = es_value m
                | StatusList ms \<Rightarrow> ms = [] \<or> in_status_list cls ms e)"
  proof (cases status)
    case (StatusList ms)
    show ?thesis
    proof (cases ms)
      case Nil
      with StatusList show ?thesis by (simp add: status_check_def)
    next
      case (Cons m ms')
      with StatusList assms obtain k where "EventStatus_getitem cls (ev_status e) = Inr k"
        using getitem_named [of "ev_status e" cls] by (auto simp: readable_def)
      with StatusList Cons show ?thesis by (simp add: status_check_def in_status_list_def)
    qed
  qed (simp_all add: status_check_def)
  show ?thesis
    by (simp add: check_params_def a b memory_filter_def)
qed

lemma filter_events_total:
  assumes "list_all (\<lambda>r. p (h r) = Inr (f (h r))) rs"
  shows "filter_events p h rs = Inr (filter (\<lambda>r. f (h r)) rs)"
  using assms by (induction rs) auto

text \<open>
  Claim C7, as stated, fails for the empty status list: an event whose status is in no
  list is returned all the same.
\<close>

theorem retrieve_empty_status_list:
  "retrieve ex_buffered ex_EventStatus None (StatusList []) = Inr (Events [0, 1, 2])
   \<and> filter (\<lambda>r. claimed_filter ex_EventStatus None (StatusList []) (heap ex_buffered r))
        (q_list (last_events ex_buffered)) = []"
  by (simp add: ex_buffered_eq retrieve_def ping_def check_params_def since_check_def
      status_check_def claimed_filter_def in_status_list_def created_since_def
      EventStatus_getitem_def ex_EventStatus_def ex_heap_def ex_bus_event_def
      FAILED_def PENDING_def SENT_def)

text \<open>
  Claim C7, amended. Without a healthy backend, \<open>retrieve(since, status)\<close> returns, in
  buffer order, exactly the buffered events with \<open>created_at >= since\<close> when \<open>since\<close> is
  given, and whose status equals the given member's value (single member) or names a
  member of the given list (non-empty list); an empty list, like no status, filters
  nothing. The buffered events are stamped and carry the name of an enum member as status
  where the predicate reads them.
\<close>

theorem retrieve_in_memory:
  assumes "ping s \<noteq> Some True"
    and "list_all (\<lambda>r. readable cls since status (heap s r)) (q_list (last_events s))"
  shows "retrieve s cls since status =
         Inr (Events (filter (\<lambda>r. memory_filter cls since status (heap s r))
                        (q_list (last_events s))))"
proof -
  have "list_all (\<lambda>r. check_params cls since status (heap s r)
                       = Inr (memory_filter cls since status (heap s r)))
          (q_list (last_events s))"
    using assms(2) by (simp add: list_all_iff check_params_readable)
  then have "filter_events (check_params cls since status) (heap s) (q_list (last_events s)) =
             Inr (filter (\<lambda>r. memory_filter cls since status (heap s r)) (q_list (last_events s)))"
    by (rule filter_events_total)
  then show ?thesis
    using assms(1) by (cases "ping s"; cases "backend s") (auto simp: retrieve_def ping_def)
qed

theorem retrieve_in_memory_witness:
  "ping ex_buffered \<noteq> Some True
   \<and> list_all (\<lambda>r. readable ex_EventStatus (Some 200) (StatusList [FAILED, PENDING])
                     (heap ex_buffered r)) (q_list (last_events ex_buffered))
   \<and> retrieve ex_buffered ex_EventStatus (Some 200) (StatusList [FAILED, PENDING])
       = Inr (Events [2])"
proof -
  have p: "ping ex_buffered \<noteq> Some True"
    by (simp add: ex_buffered_eq ping_def)
  have r: "list_all (\<lambda>r. readable ex_EventStatus (Some 200) (StatusList [FAILED, PENDING])
                     (heap ex_buffered r)) (q_list (last_events ex_buffered))"
    by (simp add: ex_buffered_eq readable_def ex_EventStatus_def ex_heap_def ex_bus_event_def
        FAILED_def PENDING_def SENT_def)
  show ?thesis
    using p r retrieve_in_memory [OF p r]
    by (simp add: ex_buffered_eq memory_filter_def created_since_def in_status_list_def
        EventStatus_getitem_def ex_EventStatus_def ex_heap_def ex_bus_event_def
        FAILED_def PENDING_def SENT_def)
qed

section \<open>Properties of \<open>list_databases\<close>\<close>

text \<open>
  Claim C8. The claim says that each listed organization is the database name without its
  leading prefix. The code removes every occurrence of \<open>org-\<close>: the database that
  \<open>_db_name\<close> creates for the organization \<open>my-org-1\<close> is listed as \<open>my-1\<close>. Names without
  the prefix are left out, as claimed.
\<close>

theorem list_databases_strips_inner_prefix:
  "db_name (Some ''my-org-1'') = ''org-my-org-1''
   \<and> list_databases [''org-acme'', ''admin'', ''org-my-org-1''] = [''acme'', ''my-1'']"
  by (simp add: list_databases_def replace_def startswith_def DATABASE_PREFIX_def db_name_def)

section \<open>Properties of \<open>report\<close> on shared objects\<close>

lemma update_fresh: "k \<notin> fst ` set al \<Longrightarrow> AList.update k v al = al @ [(k, v)]"
  by (induction al) auto

lemma ref_key_Some:
  "ref_key h r = Some k \<Longrightarrow>
   \<exists>i. h_task_id h (HRef r) = Inr i \<and> h_dict_key i = Inr k"
  by (auto simp: ref_key_def split: sum.splits)

lemma h_index_tasks_distinct:
  assumes "list_all (\<lambda>r. ref_key h r \<noteq> None) trefs"
    and "distinct (map (ref_key h) trefs)"
    and "\<forall>r \<in> set trefs. \<forall>k. ref_key h r = Some k \<longrightarrow> k \<notin> fst ` set acc"
  shows "h_index_tasks h acc (map HRef trefs) =
         Inr (acc @ map (\<lambda>r. (the (ref_key h r), HRef r)) trefs)"
  using assms
proof (induction trefs arbitrary: acc)
  case Nil
  then show ?case by simp
next
  case (Cons r trefs)
  from Cons.prems(1) obtain k where k: "ref_key h r = Some k" by auto
  from ref_key_Some [OF k] obtain i where i: "h_task_id h (HRef r) = Inr i" "h_dict_key i = Inr k"
    by blast
  from Cons.prems(3) k have fresh: "k \<notin> fst ` set acc" by auto
  have later: "\<forall>r' \<in> set trefs. \<forall>k'. ref_key h r' = Some k' \<longrightarrow>
                 k' \<notin> fst ` set (AList.update k (HRef r) acc)"
  proof (intro ballI allI impI)
    fix r' k' assume r': "r' \<in> set trefs" and k': "ref_key h r' = Some k'"
    from Cons.prems(2) r' k k' have "k' \<noteq> k" by (auto simp: image_iff)
    moreover from Cons.prems(3) r' k' have "k' \<notin> fst ` set acc" by auto
    ultimately show "k' \<notin> fst ` set (AList.update k (HRef r) acc)"
      by (simp add: dom_update)
  qed
  have "h_index_tasks h acc (map HRef (r # trefs)) =
        h_index_tasks h (AList.update k (HRef r) acc) (map HRef trefs)"
    using i by simp
  also have "\<dots> = Inr (AList.update k (HRef r) acc @ map (\<lambda>r. (the (ref_key h r), HRef r)) trefs)"
    using Cons.prems(1,2) later by (intro Cons.IH) auto
  finally show ?case
    using fresh k by (simp add: update_fresh)
qed

lemma ref_key_cong: "objs h' r = objs h r \<Longrightarrow> ref_key h' r = ref_key h r"
  by (simp add: ref_key_def h_task_id_def)

lemma dyn_states_cong:
  assumes "\<forall>d \<in> set drefs. objs h' d = objs h d"
  shows "dyn_states h' k drefs = dyn_states h k drefs"
proof -
  have "\<forall>d \<in> set drefs. ref_key h' d = ref_key h d"
    using assms ref_key_cong by blast
  then have "filter (\<lambda>d. ref_key h' d = k) drefs = filter (\<lambda>d. ref_key h d = k) drefs"
    by (intro filter_cong refl) simp
  moreover have "map (objs h') (filter (\<lambda>d. ref_key h d = k) drefs)
               = map (objs h) (filter (\<lambda>d. ref_key h d = k) drefs)"
    using assms by (intro map_cong refl) simp
  ultimately show ?thesis by (simp add: dyn_states_def)
qed

lemma dyn_states_Cons:
  "dyn_states h k (d # drefs) =
     (if ref_key h d = k then objs h d # dyn_states h k drefs else dyn_states h k drefs)"
  by (simp add: dyn_states_def)

lemma update_keys_present:
  "k \<in> fst ` set al \<Longrightarrow> map fst (AList.update k v al) = map fst al"
  by (induction al) auto

lemma h_merge_tasks_step:
  assumes "ref_key h d = Some k" and "map_of tasks k = Some (HRef st)"
  shows "h_merge_tasks tasks (HRef d # rest) h =
         h_merge_tasks (AList.update k (HRef (next_ref h)) tasks) rest
           (h\<lparr>objs := (objs h)(next_ref h := dict_merge (objs h st) (objs h d)),
              next_ref := Suc (next_ref h)\<rparr>)"
proof -
  from ref_key_Some [OF assms(1)] obtain i
    where "h_task_id h (HRef d) = Inr i" "h_dict_key i = Inr k" by blast
  then show ?thesis using assms(2) by (simp add: alloc_def)
qed

lemma h_merge_tasks_inv:
  assumes "\<forall>(k, v) \<in> set tasks. \<exists>st. v = HRef st \<and> st < next_ref h"
    and "\<forall>d \<in> set drefs. d < next_ref h \<and> (\<exists>k. ref_key h d = Some k \<and> k \<in> fst ` set tasks)"
  shows "\<exists>tasks' h'. h_merge_tasks tasks (map HRef drefs) h = Inr (tasks', h')
           \<and> map fst tasks' = map fst tasks
           \<and> next_ref h \<le> next_ref h'
           \<and> (\<forall>r < next_ref h. objs h' r = objs h r)
           \<and> (\<forall>k v. map_of tasks k = Some v \<longrightarrow>
                (if dyn_states h (Some k) drefs = [] then map_of tasks' k = Some v
                 else \<exists>b st. v = HRef st \<and> map_of tasks' k = Some (HRef b)
                        \<and> next_ref h \<le> b \<and> b < next_ref h'
                        \<and> objs h' b = foldl dict_merge (objs h st) (dyn_states h (Some k) drefs)))"
  using assms
proof (induction drefs arbitrary: tasks h)
  case Nil
  then show ?case by (simp add: dyn_states_def)
next
  case (Cons d drefs)
  from Cons.prems(2) obtain k0 where k0: "ref_key h d = Some k0" "k0 \<in> fst ` set tasks"
    and d: "d < next_ref h" by auto
  from k0(2) obtain v0 where v0: "map_of tasks k0 = Some v0"
    by (metis map_of_eq_None_iff not_Some_eq)
  then have "(k0, v0) \<in> set tasks" by (rule map_of_SomeD)
  with Cons.prems(1) obtain st0 where st0: "v0 = HRef st0" "st0 < next_ref h" by auto
  define a where "a = next_ref h"
  define h1 where "h1 = h\<lparr>objs := (objs h)(a := dict_merge (objs h st0) (objs h d)),
                           next_ref := Suc a\<rparr>"
  define tasks1 where "tasks1 = AList.update k0 (HRef a) tasks"
  have step: "h_merge_tasks tasks (map HRef (d # drefs)) h =
              h_merge_tasks tasks1 (map HRef drefs) h1"
    using h_merge_tasks_step [OF k0(1), of tasks st0 "map HRef drefs"] v0 st0
    by (simp add: a_def h1_def tasks1_def)
  have below: "objs h1 r = objs h r" if "r < next_ref h" for r
    using that by (simp add: h1_def a_def)
  have next1: "next_ref h1 = Suc a" by (simp add: h1_def)
  have new: "objs h1 a = dict_merge (objs h st0) (objs h d)" by (simp add: h1_def)
  have sub: "set tasks1 \<subseteq> insert (k0, HRef a) (set tasks)"
    unfolding tasks1_def by (induction tasks) auto
  have p1: "\<forall>(k, v) \<in> set tasks1. \<exists>st. v = HRef st \<and> st < next_ref h1"
  proof -
    have "\<exists>st. v = HRef st \<and> st < next_ref h1" if "(k, v) \<in> set tasks1" for k v
    proof (cases "(k, v) = (k0, HRef a)")
      case True
      then show ?thesis by (simp add: next1)
    next
      case False
      with sub that have "(k, v) \<in> set tasks" by blast
      with Cons.prems(1) obtain st where "v = HRef st" "st < next_ref h" by blast
      then show ?thesis by (simp add: next1 a_def)
    qed
    then show ?thesis by blast
  qed
  have keys1: "fst ` set tasks1 = fst ` set tasks"
    using k0(2) by (auto simp: tasks1_def dom_update)
  have p2: "\<forall>d' \<in> set drefs. d' < next_ref h1 \<and>
              (\<exists>k. ref_key h1 d' = Some k \<and> k \<in> fst ` set tasks1)"
  proof
    fix d' assume "d' \<in> set drefs"
    with Cons.prems(2) obtain k where "d' < next_ref h" "ref_key h d' = Some k" "k \<in> fst ` set tasks"
      by auto
    then show "d' < next_ref h1 \<and> (\<exists>k. ref_key h1 d' = Some k \<and> k \<in> fst ` set tasks1)"
      using ref_key_cong [OF below [of d']] by (simp add: next1 a_def keys1)
  qed
  from Cons.IH [OF p1 p2] obtain tasks' h'
    where run: "h_merge_tasks tasks1 (map HRef drefs) h1 = Inr (tasks', h')"
      and keys: "map fst tasks' = map fst tasks1"
      and mono: "next_ref h1 \<le> next_ref h'"
      and frame: "\<forall>r < next_ref h1. objs h' r = objs h1 r"
      and vals: "\<forall>k v. map_of tasks1 k = Some v \<longrightarrow>
                (if dyn_states h1 (Some k) drefs = [] then map_of tasks' k = Some v
                 else \<exists>b st. v = HRef st \<and> map_of tasks' k = Some (HRef b)
                        \<and> next_ref h1 \<le> b \<and> b < next_ref h'
                        \<and> objs h' b = foldl dict_merge (objs h1 st) (dyn_states h1 (Some k) drefs))"
    by blast
  have same_dyn: "dyn_states h1 k drefs = dyn_states h k drefs" for k
    using Cons.prems(2) below by (intro dyn_states_cong) auto
  have vals1: "if dyn_states h (Some k) drefs = [] then map_of tasks' k = Some v
                 else \<exists>b st. v = HRef st \<and> map_of tasks' k = Some (HRef b)
                        \<and> next_ref h1 \<le> b \<and> b < next_ref h'
                        \<and> objs h' b = foldl dict_merge (objs h1 st) (dyn_states h (Some k) drefs)"
    if "map_of tasks1 k = Some v" for k v
    using vals [rule_format, OF that] unfolding same_dyn .
  have c1: "map fst tasks' = map fst tasks"
    using keys k0(2) by (simp add: tasks1_def update_keys_present)
  have c2: "next_ref h \<le> next_ref h'"
    using mono by (simp add: next1 a_def)
  have c3: "\<forall>r < next_ref h. objs h' r = objs h r"
    using frame below by (simp add: next1 a_def)
  have c4: "\<forall>k v. map_of tasks k = Some v \<longrightarrow>
                (if dyn_states h (Some k) (d # drefs) = [] then map_of tasks' k = Some v
                 else \<exists>b st. v = HRef st \<and> map_of tasks' k = Some (HRef b)
                        \<and> next_ref h \<le> b \<and> b < next_ref h'
                        \<and> objs h' b = foldl dict_merge (objs h st) (dyn_states h (Some k) (d # drefs)))"
  proof (intro allI impI)
    fix k v assume kv: "map_of tasks k = Some v"
    show "if dyn_states h (Some k) (d # drefs) = [] then map_of tasks' k = Some v
                 else \<exists>b st. v = HRef st \<and> map_of tasks' k = Some (HRef b)
                        \<and> next_ref h \<le> b \<and> b < next_ref h'
                        \<and> objs h' b = foldl dict_merge (objs h st) (dyn_states h (Some k) (d # drefs))"
    proof (cases "k = k0")
      case True
      with kv v0 st0 have v: "v = HRef st0" by simp
      have m1: "map_of tasks1 k0 = Some (HRef a)"
        by (simp add: tasks1_def update_conv')
      have ds: "dyn_states h (Some k) (d # drefs) = objs h d # dyn_states h (Some k0) drefs"
        using True k0(1) by (simp add: dyn_states_Cons)
      show ?thesis
      proof (cases "dyn_states h (Some k0) drefs = []")
        case True
        with vals1 [OF m1] have "map_of tasks' k0 = Some (HRef a)"
          by simp
        moreover have "objs h' a = dict_merge (objs h st0) (objs h d)"
          using frame new by (simp add: next1)
        moreover have "a < next_ref h'" using mono by (simp add: next1)
        ultimately show ?thesis
          using ds True v \<open>k = k0\<close> by (auto simp: a_def)
      next
        case False
        with vals1 [OF m1] obtain b where b: "map_of tasks' k0 = Some (HRef b)"
          "next_ref h1 \<le> b" "b < next_ref h'"
          "objs h' b = foldl dict_merge (objs h1 a) (dyn_states h (Some k0) drefs)"
          by auto
        then show ?thesis
          using ds v \<open>k = k0\<close> new by (auto simp: next1 a_def)
      qed
    next
      case False
      then have m1: "map_of tasks1 k = Some v"
        using kv by (simp add: tasks1_def update_conv')
      have ds: "dyn_states h (Some k) (d # drefs) = dyn_states h (Some k) drefs"
        using False k0(1) by (simp add: dyn_states_Cons)
      from kv have "(k, v) \<in> set tasks" by (rule map_of_SomeD)
      with Cons.prems(1) obtain st where st: "v = HRef st" "st < next_ref h" by auto
      from vals1 [OF m1] show ?thesis
        using ds st below [of st] by (auto simp: next1 a_def)
    qed
  qed
  have c0: "h_merge_tasks tasks (map HRef (d # drefs)) h = Inr (tasks', h')"
    using step run by simp
  from c0 c1 c2 c3 c4 show ?case
    by (intro exI [of _ tasks'] exI [of _ h'] conjI)
qed

lemma map_of_nth_distinct:
  "distinct (map fst al) \<Longrightarrow> j < length al \<Longrightarrow> map_of al (fst (al ! j)) = Some (snd (al ! j))"
  by (simp add: map_of_eq_Some_iff)

text \<open>
  The fields of \<open>{**a, **b}\<close>: those of \<open>a\<close>, overridden by those of \<open>b\<close> (a later entry
  of \<open>b\<close> wins, which only matters for an association list that repeats a key).
\<close>

lemma map_of_dict_merge: "map_of (dict_merge a b) = map_of a ++ map_of (rev b)"
proof (induction b arbitrary: a)
  case Nil
  then show ?case by (simp add: dict_merge_def)
next
  case (Cons p b)
  obtain k v where p: "p = (k, v)" by (cases p)
  have "dict_merge a (p # b) = dict_merge (AList.update k v a) b"
    by (simp add: dict_merge_def p)
  then have "map_of (dict_merge a (p # b)) = map_of (AList.update k v a) ++ map_of (rev b)"
    using Cons.IH [of "AList.update k v a"] by simp
  also have "\<dots> = (map_of a)(k \<mapsto> v) ++ map_of (rev b)"
    by (simp only: update_conv')
  also have "\<dots> = map_of a ++ map_of (rev (p # b))"
    by (rule ext) (simp add: p map_of_append map_add_def split: option.splits)
  finally show ?case .
qed

text \<open>
  Claim C5, as stated, fails outside the well-formed inputs. When two template tasks have
  the same id, the dict \<open>tasks\<close> keeps one entry for both and the first of the two tasks
  is not in the output. When the instance report has a task whose id is no template
  task's, \<open>tasks[task['id']]\<close> raises \<open>KeyError\<close> and there is no output.
\<close>

theorem report_loses_task_with_repeated_id:
  "map_of (objs ex_repeated_id 10) ''tasks'' = Some (HList [HRef 11, HRef 12])
   \<and> fst (report_store ex_repeated_id 10 13 16) = Inr 17
   \<and> map_of (objs (snd (report_store ex_repeated_id 10 13 16)) 17) ''tasks''
       = Some (HList [HRef 12])
   \<and> fst (report_store ex_unknown_id 10 13 16) = Inl (KeyError (PStr ''t9''))"
  by (simp add: report_store_def ex_repeated_id_def ex_unknown_id_def
      ex_store_def h_getitem_def h_iterate_def h_task_id_def h_dict_key_def key_value_def
      alloc_def dict_merge_def Let_def)

text \<open>
  Claim C5, amended. For a well-formed input (the template's and the instance report's
  \<open>tasks\<close> are lists of dicts with hashable ids, the template's ids are pairwise different,
  every task of the instance report has the id of a template task, and the \<open>exec\<close> dict
  of the instance report is an object of its own), \<open>report\<close> returns a new dict whose
  \<open>tasks\<close> list has one entry per template task, in the template's order. The entry of a
  template task without dynamic state is the template's own task dict, whose fields are
  as before (its static fields only). The entry of a template task with dynamic state is
  a new dict, the static dict merged with the dynamic dicts of that id
  (\<open>{**static, **dynamic}\<close>: all static and all dynamic fields, the dynamic value where
  both have the field). No object that existed before the call is written, except the
  \<open>exec\<close> dict of the instance's own report: the stored template and its task dicts are
  unchanged.
\<close>

theorem report_merge:
  assumes "report_input_ok h self_template inst self_exec trefs drefs ex"
  shows "\<exists>a h'. report_store h self_template inst self_exec = (Inr a, h')
           \<and> next_ref h \<le> a
           \<and> (\<forall>r < next_ref h. r \<noteq> ex \<longrightarrow> objs h' r = objs h r)
           \<and> objs h' self_template = objs h self_template
           \<and> (\<exists>out. map_of (objs h' a) ''tasks'' = Some (HList out)
                 \<and> length out = length trefs
                 \<and> (\<forall>j < length trefs.
                       if dyn_states h (ref_key h (trefs ! j)) drefs = []
                       then out ! j = HRef (trefs ! j)
                       else \<exists>b. out ! j = HRef b \<and> next_ref h \<le> b
                              \<and> objs h' b =
                                  foldl dict_merge (objs h (trefs ! j))
                                    (dyn_states h (ref_key h (trefs ! j)) drefs)))"
proof -
  from assms have
    below: "self_template < next_ref h" "inst < next_ref h" "ex < next_ref h"
    and apart: "ex \<noteq> self_template" "ex \<noteq> inst"
    and tt: "map_of (objs h self_template) ''tasks'' = Some (HList (map HRef trefs))"
    and ie: "map_of (objs h inst) ''exec'' = Some (HRef ex)"
    and it: "map_of (objs h inst) ''tasks'' = Some (HList (map HRef drefs))"
    and refs: "\<forall>r \<in> set (trefs @ drefs). r < next_ref h \<and> r \<noteq> ex \<and> ref_key h r \<noteq> None"
    and dist: "distinct (map (ref_key h) trefs)"
    and known: "\<forall>d \<in> set drefs. ref_key h d \<in> set (map (ref_key h) trefs)"
    by (simp_all add: report_input_ok_def list_all_iff)
  define tasks where "tasks = map (\<lambda>r. (the (ref_key h r), HRef r)) trefs"
  define h1 where "h1 = h\<lparr>objs := (objs h)(ex := dict_merge (objs h ex) (objs h self_exec))\<rparr>"
  have index: "h_index_tasks h [] (map HRef trefs) = Inr tasks"
    using h_index_tasks_distinct [of h trefs "[]"] refs dist
    by (simp add: tasks_def list_all_iff)
  have next1: "next_ref h1 = next_ref h" by (simp add: h1_def)
  have same1: "objs h1 r = objs h r" if "r \<noteq> ex" for r
    using that by (simp add: h1_def)
  have key1: "ref_key h1 r = ref_key h r" if "r \<in> set (trefs @ drefs)" for r
    using that refs same1 [of r] by (intro ref_key_cong) auto
  have keys: "map fst tasks = map (\<lambda>r. the (ref_key h r)) trefs"
    by (simp add: tasks_def comp_def)
  have inj: "inj_on (\<lambda>r. the (ref_key h r)) (set trefs)"
  proof (rule inj_onI)
    fix x y assume x: "x \<in> set trefs" and y: "y \<in> set trefs"
      and e: "the (ref_key h x) = the (ref_key h y)"
    from refs x y have "ref_key h x \<noteq> None" "ref_key h y \<noteq> None" by auto
    with e have "ref_key h x = ref_key h y" by auto
    with dist x y show "x = y" by (simp add: distinct_map inj_on_def)
  qed
  have dkeys: "distinct (map fst tasks)"
    using dist inj unfolding keys by (simp add: distinct_map)
  have p1: "\<forall>(k, v) \<in> set tasks. \<exists>st. v = HRef st \<and> st < next_ref h1"
    using refs by (auto simp: tasks_def next1)
  have p2: "\<forall>d \<in> set drefs. d < next_ref h1 \<and> (\<exists>k. ref_key h1 d = Some k \<and> k \<in> fst ` set tasks)"
  proof
    fix d assume d: "d \<in> set drefs"
    with known obtain r where r: "r \<in> set trefs" "ref_key h d = ref_key h r" by auto
    from refs d obtain k where k: "ref_key h d = Some k" by auto
    with r have "k = the (ref_key h r)" by (metis option.sel)
    with r(1) have "k \<in> fst ` set tasks" by (force simp: tasks_def)
    with k d refs show "d < next_ref h1 \<and> (\<exists>k. ref_key h1 d = Some k \<and> k \<in> fst ` set tasks)"
      by (simp add: next1 key1)
  qed
  from h_merge_tasks_inv [OF p1 p2] obtain merged h2
    where run: "h_merge_tasks tasks (map HRef drefs) h1 = Inr (merged, h2)"
      and mkeys: "map fst merged = map fst tasks"
      and mono: "next_ref h1 \<le> next_ref h2"
      and frame: "\<forall>r < next_ref h1. objs h2 r = objs h1 r"
      and vals: "\<forall>k v. map_of tasks k = Some v \<longrightarrow>
                (if dyn_states h1 (Some k) drefs = [] then map_of merged k = Some v
                 else \<exists>b st. v = HRef st \<and> map_of merged k = Some (HRef b)
                        \<and> next_ref h1 \<le> b \<and> b < next_ref h2
                        \<and> objs h2 b = foldl dict_merge (objs h1 st) (dyn_states h1 (Some k) drefs))"
    by blast
  have same_dyn: "dyn_states h1 k drefs = dyn_states h k drefs" for k
    using refs same1 by (intro dyn_states_cong) auto
  define a where "a = next_ref h2"
  define result where
    "result = AList.update ''tasks'' (HList (map snd merged))
                (AList.update ''exec'' (HRef ex) (objs h2 self_template))"
  define h' where "h' = h2\<lparr>objs := (objs h2)(a := result), next_ref := Suc a\<rparr>"
  have inst2: "objs h2 inst = objs h inst"
    using frame below(2) apart(2) by (simp add: next1 same1)
  have inst1: "objs h1 inst = objs h inst"
    using apart(2) by (simp add: same1)
  have ret: "report_store h self_template inst self_exec = (Inr a, h')"
    using tt ie it index run inst1 inst2
    by (simp add: report_store_def h_getitem_def h_iterate_def Let_def h1_def [symmetric]
        alloc_def a_def h'_def result_def)
  have fresh: "next_ref h \<le> a"
    using mono by (simp add: a_def next1)
  have old: "objs h' r = objs h2 r" if "r < a" for r
    using that by (simp add: h'_def)
  have fr: "\<forall>r < next_ref h. r \<noteq> ex \<longrightarrow> objs h' r = objs h r"
    using frame fresh old same1 by (simp add: next1)
  have tmpl: "objs h' self_template = objs h self_template"
    using fr below(1) apart(1) by simp
  have out: "map_of (objs h' a) ''tasks'' = Some (HList (map snd merged))"
    by (simp add: h'_def result_def update_conv')
  have len: "length (map snd merged) = length trefs"
    using arg_cong [OF mkeys, of length] by (simp add: tasks_def)
  have each: "if dyn_states h (ref_key h (trefs ! j)) drefs = []
              then map snd merged ! j = HRef (trefs ! j)
              else \<exists>b. map snd merged ! j = HRef b \<and> next_ref h \<le> b
                     \<and> objs h' b = foldl dict_merge (objs h (trefs ! j))
                                     (dyn_states h (ref_key h (trefs ! j)) drefs)"
    if j: "j < length trefs" for j
  proof -
    let ?r = "trefs ! j"
    from j have rin: "?r \<in> set trefs" by simp
    with refs obtain k where k: "ref_key h ?r = Some k" and r: "?r < next_ref h" "?r \<noteq> ex"
      by auto
    have tj: "tasks ! j = (k, HRef ?r)"
      using j k by (simp add: tasks_def)
    have "map_of tasks (fst (tasks ! j)) = Some (snd (tasks ! j))"
      using dkeys j by (intro map_of_nth_distinct) (simp_all add: tasks_def)
    then have mt: "map_of tasks k = Some (HRef ?r)" by (simp add: tj)
    have lm: "j < length merged"
      using len j by simp
    have "fst (merged ! j) = fst (tasks ! j)"
      using arg_cong [OF mkeys, of "\<lambda>xs. xs ! j"] lm j by (simp add: tasks_def)
    then have fj: "fst (merged ! j) = k" by (simp add: tj)
    have "map_of merged (fst (merged ! j)) = Some (snd (merged ! j))"
      using dkeys lm by (intro map_of_nth_distinct) (simp_all add: mkeys)
    then have mm: "map_of merged k = Some (map snd merged ! j)"
      using lm by (simp add: fj)
    from vals [rule_format, OF mt]
    have v: "if dyn_states h (Some k) drefs = [] then map_of merged k = Some (HRef ?r)
             else \<exists>b st. HRef ?r = HRef st \<and> map_of merged k = Some (HRef b)
                        \<and> next_ref h1 \<le> b \<and> b < next_ref h2
                        \<and> objs h2 b = foldl dict_merge (objs h1 st) (dyn_states h (Some k) drefs)"
      unfolding same_dyn .
    show ?thesis
    proof (cases "dyn_states h (Some k) drefs = []")
      case True
      with v mm show ?thesis by (simp add: k)
    next
      case False
      with v obtain b where b: "map_of merged k = Some (HRef b)" "next_ref h1 \<le> b"
        "b < next_ref h2"
        "objs h2 b = foldl dict_merge (objs h1 ?r) (dyn_states h (Some k) drefs)"
        by auto
      then have "objs h' b = foldl dict_merge (objs h ?r) (dyn_states h (Some k) drefs)"
        using old [of b] same1 [OF r(2)] by (simp add: a_def)
      with b mm False show ?thesis by (simp add: k next1)
    qed
  qed
  have all: "\<forall>j < length trefs.
               if dyn_states h (ref_key h (trefs ! j)) drefs = []
               then map snd merged ! j = HRef (trefs ! j)
               else \<exists>b. map snd merged ! j = HRef b \<and> next_ref h \<le> b
                      \<and> objs h' b = foldl dict_merge (objs h (trefs ! j))
                                      (dyn_states h (ref_key h (trefs ! j)) drefs)"
    using each by blast
  have tasks_part: "\<exists>out. map_of (objs h' a) ''tasks'' = Some (HList out)
                 \<and> length out = length trefs
                 \<and> (\<forall>j < length trefs.
                       if dyn_states h (ref_key h (trefs ! j)) drefs = []
                       then out ! j = HRef (trefs ! j)
                       else \<exists>b. out ! j = HRef b \<and> next_ref h \<le> b
                              \<and> objs h' b =
                                  foldl dict_merge (objs h (trefs ! j))
                                    (dyn_states h (ref_key h (trefs ! j)) drefs))"
    using out len all by (intro exI [of _ "map snd merged"] conjI)
  from ret fresh fr tmpl tasks_part show ?thesis
    by (intro exI [of _ a] exI [of _ h'] conjI)
qed

lemma ex_store_ok: "report_input_ok ex_store 10 13 16 [11, 12] [15] 14"
  by (simp add: report_input_ok_def ex_store_def ref_key_def h_task_id_def h_getitem_def
      h_dict_key_def)

theorem report_merge_witness:
  "report_input_ok ex_store 10 13 16 [11, 12] [15] 14
   \<and> (\<exists>a h' b. report_store ex_store 10 13 16 = (Inr a, h')
         \<and> map_of (objs h' a) ''tasks'' = Some (HList [HRef b, HRef 12])
         \<and> next_ref ex_store \<le> b
         \<and> objs h' b = [(''id'', HStr ''t1''), (''title'', HStr ''First''),
                          (''status'', HStr ''done''), (''outputs'', HObject ''Event'')]
         \<and> objs h' 12 = [(''id'', HStr ''t2''), (''title'', HStr ''Second'')]
         \<and> objs h' 11 = [(''id'', HStr ''t1''), (''title'', HStr ''First'')]
         \<and> objs h' 10 = objs ex_store 10)"
proof -
  have k1: "ref_key ex_store 11 = Some (HStr ''t1'')" and k2: "ref_key ex_store 12 = Some (HStr ''t2'')"
    and k5: "ref_key ex_store 15 = Some (HStr ''t1'')"
    by (simp_all add: ex_store_def ref_key_def h_task_id_def h_getitem_def h_dict_key_def)
  have d1: "dyn_states ex_store (ref_key ex_store 11) [15] = [objs ex_store 15]"
    and d2: "dyn_states ex_store (ref_key ex_store 12) [15] = []"
    by (simp_all add: dyn_states_def k1 k2 k5)
  from report_merge [OF ex_store_ok] obtain a h' out
    where ret: "report_store ex_store 10 13 16 = (Inr a, h')"
      and frame: "\<forall>r < next_ref ex_store. r \<noteq> 14 \<longrightarrow> objs h' r = objs ex_store r"
      and tmpl: "objs h' 10 = objs ex_store 10"
      and out: "map_of (objs h' a) ''tasks'' = Some (HList out)" "length out = length [11::nat, 12]"
      and each: "\<forall>j < length [11::nat, 12].
                   if dyn_states ex_store (ref_key ex_store ([11, 12] ! j)) [15] = []
                   then out ! j = HRef ([11, 12] ! j)
                   else \<exists>b. out ! j = HRef b \<and> next_ref ex_store \<le> b
                          \<and> objs h' b = foldl dict_merge (objs ex_store ([11, 12] ! j))
                               (dyn_states ex_store (ref_key ex_store ([11, 12] ! j)) [15])"
    by blast
  from each [rule_format, of 0] obtain b where b: "out ! 0 = HRef b" "next_ref ex_store \<le> b"
    "objs h' b = dict_merge (objs ex_store 11) (objs ex_store 15)"
    by (auto simp: d1)
  from each [rule_format, of 1] have o1: "out ! 1 = HRef 12"
    by (simp add: d2)
  from out(2) obtain x y where "out = [x, y]"
    by (cases out; cases "tl out") auto
  with b(1) o1 have o: "out = [HRef b, HRef 12]" by simp
  have m: "objs h' b = [(''id'', HStr ''t1''), (''title'', HStr ''First''),
                         (''status'', HStr ''done''), (''outputs'', HObject ''Event'')]"
    using b(3) by (simp add: ex_store_def dict_merge_def)
  have t2: "objs h' 12 = [(''id'', HStr ''t2''), (''title'', HStr ''Second'')]"
    and t1: "objs h' 11 = [(''id'', HStr ''t1''), (''title'', HStr ''First'')]"
    using frame by (simp_all add: ex_store_def)
  from ret out(1) o b(2) m t2 t1 tmpl
  have "\<exists>a h' b. report_store ex_store 10 13 16 = (Inr a, h')
         \<and> map_of (objs h' a) ''tasks'' = Some (HList [HRef b, HRef 12])
         \<and> next_ref ex_store \<le> b
         \<and> objs h' b = [(''id'', HStr ''t1''), (''title'', HStr ''First''),
                          (''status'', HStr ''done''), (''outputs'', HObject ''Event'')]
         \<and> objs h' 12 = [(''id'', HStr ''t2''), (''title'', HStr ''Second'')]
         \<and> objs h' 11 = [(''id'', HStr ''t1''), (''title'', HStr ''First'')]
         \<and> objs h' 10 = objs ex_store 10"
    by (intro exI [of _ a] exI [of _ h'] exI [of _ b]) simp
  with ex_store_ok show ?thesis by (intro conjI)
qed

section \<open>Properties of the registry\<close>

lemma find_wflow_entry:
  "find_wflow rw e = Some w \<Longrightarrow> \<exists>org wfs. (org, wfs) \<in> set rw \<and> map_of wfs e = Some w"
  by (induction rw e rule: find_wflow.induct) (auto split: option.splits)

lemma find_wflow_None:
  "find_wflow rw e = None \<longleftrightarrow> (\<forall>(org, wfs) \<in> set rw. map_of wfs e = None)"
  by (induction rw e rule: find_wflow.induct) (auto split: option.splits)

lemma registry_ok_entry:
  assumes "registry_ok rw" and "(org, wfs) \<in> set rw"
  shows "map_of rw org = Some wfs" and "distinct (map fst wfs)"
    and "\<And>e w. map_of wfs e = Some w \<Longrightarrow> organization w = org \<and> uid (wf_instance w) = e"
proof -
  show "map_of rw org = Some wfs"
    using assms by (simp add: registry_ok_def)
  show "distinct (map fst wfs)"
    using assms by (auto simp: registry_ok_def list_all_iff)
  show "organization w = org \<and> uid (wf_instance w) = e" if "map_of wfs e = Some w" for e w
  proof -
    from that have "(e, w) \<in> set wfs" by (rule map_of_SomeD)
    with assms show ?thesis by (auto simp: registry_ok_def list_all_iff)
  qed
qed


text \<open>
  When only one organization has the execution id, the lookup loop finds that
  organization's record.
\<close>

lemma find_wflow_unique:
  assumes "registry_ok rw" and "lookup_record rw org e = Some w"
    and "\<forall>org'. org' \<noteq> org \<longrightarrow> lookup_record rw org' e = None"
  shows "find_wflow rw e = Some w"
proof (cases "find_wflow rw e")
  case None
  from assms(2) obtain wfs where m: "map_of rw org = Some wfs" and f: "map_of wfs e = Some w"
    by (cases "map_of rw org") (auto simp: lookup_record_def)
  from m have "(org, wfs) \<in> set rw" by (rule map_of_SomeD)
  with None f show ?thesis by (auto simp: find_wflow_None)
next
  case (Some w')
  from find_wflow_entry [OF Some] obtain org' wfs'
    where m: "(org', wfs') \<in> set rw" and f: "map_of wfs' e = Some w'" by blast
  from registry_ok_entry(1) [OF assms(1) m] f
  have l: "lookup_record rw org' e = Some w'" by (simp add: lookup_record_def)
  with assms(3) have "org' = org" by (cases "org' = org") auto
  with l assms(2) Some show ?thesis by simp
qed



lemma lookup_record_update:
  "lookup_record (AList.update org wfs' rw) o' e =
     (if o' = org then map_of wfs' e else lookup_record rw o' e)"
  by (simp add: lookup_record_def update_conv')

lemma registry_ok_update:
  assumes "registry_ok rw" and "distinct (map fst wfs')"
    and "list_all (\<lambda>(exec_id, w). organization w = org \<and> uid (wf_instance w) = exec_id) wfs'"
  shows "registry_ok (AList.update org wfs' rw)"
proof -
  let ?ok = "\<lambda>(org, org_workflows).
          distinct (map fst org_workflows) \<and>
          list_all (\<lambda>(exec_id, w). organization w = org \<and> uid (wf_instance w) = exec_id)
            org_workflows"
  have sub: "set (AList.update org wfs' rw) \<subseteq> insert (org, wfs') (set rw)"
    by (induction rw) auto
  have "?ok (org, wfs')" using assms(2,3) by simp
  moreover have "\<forall>p \<in> set rw. ?ok p"
    using assms(1) by (simp add: registry_ok_def list_all_iff)
  ultimately have "\<forall>p \<in> set (AList.update org wfs' rw). ?ok p"
    using sub by blast
  then show ?thesis
    using assms(1) by (simp add: registry_ok_def list_all_iff distinct_update)
qed




text \<open>The handler for an execution id that no organization has.\<close>

lemma report_workflow_unknown:
  "find_wflow (running_workflows s) (workflow_exec_id event) = None \<Longrightarrow>
   report_workflow env s event utcnow = (Inl (UnboundLocalError ''wflow''), s)"
  by (simp add: report_workflow_def)

lemma ex_connected_eq:
  "ex_connected =
     \<lparr>objects = ex_objects, running_workflows = [],
      ws_clients = [(Some ''acme'', [ex_alice]), (Some ''globex'', [ex_bob])],
      databases = [], inserted = [], sent = []\<rparr>"
  by (simp add: ex_connected_def websocket_ready_def WorkflowNyuki_init_def get_or_empty_def
      ex_alice_def ex_bob_def Let_def)

lemma ex_nyuki_eq:
  "ex_nyuki =
     \<lparr>objects = ex_nyuki_objects,
      running_workflows =
        [(Some ''acme'', [(''x1'', ex_record_x1)]), (Some ''globex'', [(''x2'', ex_record_x2)])],
      ws_clients = [(Some ''acme'', [ex_alice]), (Some ''globex'', [ex_bob])],
      databases = [], inserted = [], sent = []\<rparr>"
  by (simp add: ex_nyuki_def ex_connected_eq new_workflow_def alloc_def ALLOWED_EXEC_KEYS_def
      get_or_empty_def ex_record_x1_def ex_record_x2_def ex_nyuki_objects_def ex_objects_def
      Let_def)

lemma ex_nyuki_ok:
  "registry_ok (running_workflows ex_nyuki)" "clients_ok (ws_clients ex_nyuki)"
  by (simp_all add: ex_nyuki_eq registry_ok_def clients_ok_def ex_record_x1_def ex_record_x2_def
      ex_alice_def ex_bob_def)

text \<open>
  Claim C3. The claim says that an event for an unknown execution id is dropped with a
  warning and that no error leaves the handler. On the code the lookup loop ends without
  binding \<open>wflow\<close>, and the next statement raises \<open>UnboundLocalError\<close> out of the handler.
  Nothing else happens: the state is unchanged (no record, no write, no broadcast).
\<close>

theorem report_workflow_unknown_execution_raises:
  "find_wflow (running_workflows ex_nyuki) ''x9'' = None
   \<and> report_workflow ex_mongo ex_nyuki (ex_engine_event ''x9'' state_progress) ''12:00''
       = (Inl (UnboundLocalError ''wflow''), ex_nyuki)
   \<and> report_workflow ex_mongo (WorkflowNyuki_init ex_objects) (ex_engine_event ''x9'' state_end)
         ''12:00''
       = (Inl (UnboundLocalError ''wflow''), WorkflowNyuki_init ex_objects)"
  by (simp add: report_workflow_unknown ex_nyuki_eq ex_engine_event_def WorkflowNyuki_init_def)








lemma clients_ok_listed:
  assumes "clients_ok ws" and "c \<in> set (get_or_empty ws org)"
  shows "header_organization c = org"
proof -
  from assms(2) obtain cs where m: "map_of ws org = Some cs" and c: "c \<in> set cs"
    by (cases "map_of ws org") (auto simp: get_or_empty_def)
  from m have "(org, cs) \<in> set ws" by (rule map_of_SomeD)
  with assms(1) c show ?thesis by (auto simp: clients_ok_def list_all_iff)
qed

lemma registry_ok_listed:
  assumes "registry_ok rw" and "w \<in> set (map snd (get_or_empty rw org))"
  shows "organization w = org \<and> lookup_record rw org (uid (wf_instance w)) = Some w"
proof -
  from assms(2) obtain wfs e where m: "map_of rw org = Some wfs" and w: "(e, w) \<in> set wfs"
    by (cases "map_of rw org") (auto simp: get_or_empty_def)
  from m have in_rw: "(org, wfs) \<in> set rw" by (rule map_of_SomeD)
  from registry_ok_entry(2) [OF assms(1) in_rw] w have f: "map_of wfs e = Some w"
    by simp
  from registry_ok_entry(3) [OF assms(1) in_rw f] m f show ?thesis
    by (simp add: lookup_record_def)
qed

lemma finalize_keeps:
  "sent (snd (finalize env s wflow e)) = sent s"
  "ws_clients (snd (finalize env s wflow e)) = ws_clients s"
  by (simp_all add: finalize_def Let_def split: sum.splits prod.splits)

lemma report_workflow_sent:
  "sent (snd (report_workflow env s event utcnow)) = sent s
   \<or> (\<exists>wflow. find_wflow (running_workflows s) (workflow_exec_id event) = Some wflow
        \<and> sent (snd (report_workflow env s event utcnow)) =
            sent s @ [(get_or_empty (ws_clients s) (organization wflow),
                       payload_of (objects (snd (report_workflow env s event utcnow))) event wflow
                         (exec_get (objects s) wflow ''requester'') utcnow)])"
proof (cases "find_wflow (running_workflows s) (workflow_exec_id event)")
  case None
  then show ?thesis by (simp add: report_workflow_def)
next
  case (Some wflow)
  show ?thesis
  proof (cases "data_type event = state_end \<or> data_type event = state_error")
    case False
    with Some show ?thesis by (simp add: report_workflow_def Let_def)
  next
    case True
    obtain r s1 where f: "finalize env s wflow (workflow_exec_id event) = (r, s1)"
      by (cases "finalize env s wflow (workflow_exec_id event)")
    have keep: "sent s1 = sent s" "ws_clients s1 = ws_clients s"
      using finalize_keeps [of env s wflow "workflow_exec_id event"] f by simp_all
    show ?thesis
      using Some True f keep by (cases r) (simp_all add: report_workflow_def Let_def)
  qed
qed

lemma ex_two_orgs_eq:
  "ex_two_orgs =
     \<lparr>objects = \<lparr>objs = (objs ex_objects)(30 := [], 31 := []), next_ref = 32\<rparr>,
      running_workflows =
        [(Some ''acme'',
          [(''x1'', \<lparr>template = 20, wf_instance = \<lparr>uid = ''x1'', tukio_report = 23\<rparr>,
                     organization = Some ''acme'', exec = 30\<rparr>)]),
         (Some ''globex'',
          [(''x1'', \<lparr>template = 20, wf_instance = \<lparr>uid = ''x1'', tukio_report = 28\<rparr>,
                     organization = Some ''globex'', exec = 31\<rparr>)])],
      ws_clients = [(Some ''acme'', [ex_alice]), (Some ''globex'', [ex_bob])],
      databases = [], inserted = [], sent = []\<rparr>"
  by (simp add: ex_two_orgs_def ex_connected_eq new_workflow_def alloc_def ALLOWED_EXEC_KEYS_def
      get_or_empty_def ex_objects_def Let_def)

lemma ex_two_orgs_reachable: "reachable ex_two_orgs"
  unfolding ex_two_orgs_def ex_connected_def
  by (intro reachable.registered reachable.connected reachable.start)

text \<open>
  Claim C6, as stated, fails when two organizations have an execution with the same id,
  which \<open>new_workflow\<close> allows (the registry is keyed by organization, then by id) and
  which a state that the handlers produce can hold. An event carries the id only, and the
  lookup takes the first organization that has it: with \<open>x1\<close> registered for \<open>acme\<close> and
  for \<open>globex\<close>, every event for \<open>x1\<close>, also one of \<open>globex\<close>'s execution, is sent to the
  client of \<open>acme\<close> and not to the client of \<open>globex\<close>.
\<close>

theorem same_execution_id_in_two_organizations:
  "registry_ok (running_workflows ex_two_orgs) \<and> clients_ok (ws_clients ex_two_orgs)
   \<and> lookup_record (running_workflows ex_two_orgs) (Some ''acme'') ''x1''
       = Some \<lparr>template = 20, wf_instance = \<lparr>uid = ''x1'', tukio_report = 23\<rparr>,
               organization = Some ''acme'', exec = 30\<rparr>
   \<and> lookup_record (running_workflows ex_two_orgs) (Some ''globex'') ''x1''
       = Some \<lparr>template = 20, wf_instance = \<lparr>uid = ''x1'', tukio_report = 28\<rparr>,
               organization = Some ''globex'', exec = 31\<rparr>
   \<and> get_or_empty (ws_clients ex_two_orgs) (Some ''acme'') = [ex_alice]
   \<and> get_or_empty (ws_clients ex_two_orgs) (Some ''globex'') = [ex_bob]
   \<and> header_organization ex_alice = Some ''acme''
   \<and> header_organization ex_bob = Some ''globex''
   \<and> fst (report_workflow ex_mongo ex_two_orgs (ex_engine_event ''x1'' state_progress) ''12:00'')
       = Inr ()
   \<and> map fst (sent (snd (report_workflow ex_mongo ex_two_orgs
                            (ex_engine_event ''x1'' state_progress) ''12:00'')))
       = [[ex_alice]]"
  by (simp add: ex_two_orgs_eq registry_ok_def clients_ok_def lookup_record_def get_or_empty_def
      report_workflow_def ex_engine_event_def ex_alice_def ex_bob_def Let_def)

text \<open>
  Claim C6, amended. In a well-formed state (every record under its own organization,
  every client under the organization of its header), for an event whose execution id is
  registered for the organization \<open>B\<close> and for no other organization: the handler takes
  \<open>B\<close>'s record; whatever it sends, it sends once, to the list of clients registered for
  \<open>B\<close>; every receiver carries \<open>B\<close> in its header, and a client registered for another
  organization is not among the receivers. The snapshot that \<open>websocket_ready\<close> returns to
  a new client is made of the reports of the records stored under the client's
  organization, each of which belongs to that organization.
\<close>

theorem tenant_isolation:
  assumes "registry_ok (running_workflows s)" and "clients_ok (ws_clients s)"
  shows "(lookup_record (running_workflows s) B (workflow_exec_id event) = Some wflow
          \<and> (\<forall>A. A \<noteq> B \<longrightarrow> lookup_record (running_workflows s) A (workflow_exec_id event) = None)
          \<longrightarrow> find_wflow (running_workflows s) (workflow_exec_id event) = Some wflow
              \<and> organization wflow = B
              \<and> (sent (snd (report_workflow env s event utcnow)) = sent s
                 \<or> sent (snd (report_workflow env s event utcnow)) =
                     sent s @ [(get_or_empty (ws_clients s) B,
                                payload_of (objects (snd (report_workflow env s event utcnow)))
                                  event wflow (exec_get (objects s) wflow ''requester'') utcnow)])
              \<and> (\<forall>x \<in> set (get_or_empty (ws_clients s) B). header_organization x = B)
              \<and> (\<forall>A x. A \<noteq> B \<and> x \<in> set (get_or_empty (ws_clients s) A)
                    \<longrightarrow> x \<notin> set (get_or_empty (ws_clients s) B)))
       \<and> fst (websocket_ready s c) =
           fst (reports (objects s)
                  (map snd (get_or_empty (running_workflows s) (header_organization c))))
       \<and> (\<forall>w \<in> set (map snd (get_or_empty (running_workflows s) (header_organization c))).
             organization w = header_organization c
             \<and> lookup_record (running_workflows s) (header_organization c) (uid (wf_instance w))
                 = Some w)"
proof (intro conjI impI)
  assume a: "lookup_record (running_workflows s) B (workflow_exec_id event) = Some wflow
          \<and> (\<forall>A. A \<noteq> B \<longrightarrow> lookup_record (running_workflows s) A (workflow_exec_id event) = None)"
  from a have f: "find_wflow (running_workflows s) (workflow_exec_id event) = Some wflow"
    using find_wflow_unique [OF assms(1)] by blast
  from a obtain wfs where "map_of (running_workflows s) B = Some wfs"
    "map_of wfs (workflow_exec_id event) = Some wflow"
    by (cases "map_of (running_workflows s) B") (auto simp: lookup_record_def)
  then have o: "organization wflow = B"
    using registry_ok_entry(3) [OF assms(1) map_of_SomeD] by blast
  show "find_wflow (running_workflows s) (workflow_exec_id event) = Some wflow" by (rule f)
  show "organization wflow = B" by (rule o)
  show "sent (snd (report_workflow env s event utcnow)) = sent s
                 \<or> sent (snd (report_workflow env s event utcnow)) =
                     sent s @ [(get_or_empty (ws_clients s) B,
                                payload_of (objects (snd (report_workflow env s event utcnow)))
                                  event wflow (exec_get (objects s) wflow ''requester'') utcnow)]"
    using report_workflow_sent [of env s event utcnow] f o by auto
  show "\<forall>x \<in> set (get_or_empty (ws_clients s) B). header_organization x = B"
    using clients_ok_listed [OF assms(2)] by blast
  show "\<forall>A x. A \<noteq> B \<and> x \<in> set (get_or_empty (ws_clients s) A)
                    \<longrightarrow> x \<notin> set (get_or_empty (ws_clients s) B)"
    using clients_ok_listed [OF assms(2)] by blast
next
  show "fst (websocket_ready s c) =
           fst (reports (objects s)
                  (map snd (get_or_empty (running_workflows s) (header_organization c))))"
    by (simp add: websocket_ready_def Let_def split: prod.splits)
next
  show "\<forall>w \<in> set (map snd (get_or_empty (running_workflows s) (header_organization c))).
             organization w = header_organization c
             \<and> lookup_record (running_workflows s) (header_organization c) (uid (wf_instance w))
                 = Some w"
    using registry_ok_listed [OF assms(1)] by blast
qed

theorem tenant_isolation_witness:
  "registry_ok (running_workflows ex_nyuki) \<and> clients_ok (ws_clients ex_nyuki)
   \<and> lookup_record (running_workflows ex_nyuki) (Some ''globex'') ''x2'' = Some ex_record_x2
   \<and> lookup_record (running_workflows ex_nyuki) (Some ''acme'') ''x2'' = None
   \<and> sent (snd (report_workflow ex_mongo ex_nyuki (ex_engine_event ''x2'' state_progress) ''12:00''))
       = [([ex_bob], payload_of (objects ex_nyuki) (ex_engine_event ''x2'' state_progress)
                       ex_record_x2 HNone ''12:00'')]
   \<and> header_organization ex_bob = Some ''globex''
   \<and> ex_alice \<in> set (get_or_empty (ws_clients ex_nyuki) (Some ''acme''))
   \<and> ex_alice \<notin> set (get_or_empty (ws_clients ex_nyuki) (Some ''globex''))
   \<and> fst (websocket_ready ex_nyuki ex_carol) = Inr [HRef 33]
   \<and> map_of (objs (objects (snd (websocket_ready ex_nyuki ex_carol))) 33) ''exec''
       = Some (HRef 24)
   \<and> map_of (objs (objects (snd (websocket_ready ex_nyuki ex_carol))) 24) ''id''
       = Some (HStr ''x1'')"
proof -
  let ?ev = "ex_engine_event ''x2'' state_progress"
  let ?w = "ex_record_x2"
  let ?s' = "snd (report_workflow ex_mongo ex_nyuki ?ev ''12:00'')"
  have l: "lookup_record (running_workflows ex_nyuki) (Some ''globex'') ''x2'' = Some ?w"
    and l': "lookup_record (running_workflows ex_nyuki) (Some ''acme'') ''x2'' = None"
    by (simp_all add: ex_nyuki_eq lookup_record_def)
  have only: "\<forall>A. A \<noteq> Some ''globex''
                \<longrightarrow> lookup_record (running_workflows ex_nyuki) A ''x2'' = None"
    by (simp add: ex_nyuki_eq lookup_record_def)
  have id: "workflow_exec_id ?ev = ''x2''" by (simp add: ex_engine_event_def)
  note iso = tenant_isolation [OF ex_nyuki_ok, where B = "Some ''globex''" and event = ?ev
      and wflow = ?w and env = ex_mongo and utcnow = "''12:00''" and c = ex_carol]
  have f: "find_wflow (running_workflows ex_nyuki) (workflow_exec_id ?ev) = Some ?w"
    using iso l only id by simp
  have changed: "sent ?s' \<noteq> sent ex_nyuki" and same: "objects ?s' = objects ex_nyuki"
    using f by (simp_all add: report_workflow_def ex_engine_event_def Let_def)
  from iso l only id changed
  have b: "sent ?s' = sent ex_nyuki @ [(get_or_empty (ws_clients ex_nyuki) (Some ''globex''),
                                        payload_of (objects ?s') ?ev ?w
                                          (exec_get (objects ex_nyuki) ?w ''requester'') ''12:00'')]"
    and h: "\<forall>x \<in> set (get_or_empty (ws_clients ex_nyuki) (Some ''globex'')).
              header_organization x = Some ''globex''"
    and o: "\<forall>A x. A \<noteq> Some ''globex'' \<and> x \<in> set (get_or_empty (ws_clients ex_nyuki) A)
              \<longrightarrow> x \<notin> set (get_or_empty (ws_clients ex_nyuki) (Some ''globex''))"
    by auto
  have cl: "get_or_empty (ws_clients ex_nyuki) (Some ''globex'') = [ex_bob]"
    "get_or_empty (ws_clients ex_nyuki) (Some ''acme'') = [ex_alice]"
    "sent ex_nyuki = []"
    by (simp_all add: ex_nyuki_eq get_or_empty_def)
  have rq: "exec_get (objects ex_nyuki) ?w ''requester'' = HNone"
    by (simp add: exec_get_def ex_nyuki_eq ex_nyuki_objects_def ex_record_x2_def)
  have 1: "sent ?s' = [([ex_bob], payload_of (objects ex_nyuki) ?ev ?w HNone ''12:00'')]"
    using b cl rq same by simp
  have 2: "header_organization ex_bob = Some ''globex''"
    using h cl by simp
  have 3: "ex_alice \<in> set (get_or_empty (ws_clients ex_nyuki) (Some ''acme''))"
    using cl by simp
  have 4: "ex_alice \<notin> set (get_or_empty (ws_clients ex_nyuki) (Some ''globex''))"
    using o [rule_format, of "Some ''acme''" ex_alice] 3 by simp
  have "fst (websocket_ready ex_nyuki ex_carol) =
          fst (reports (objects ex_nyuki)
                 (map snd (get_or_empty (running_workflows ex_nyuki) (header_organization ex_carol))))"
    using iso by blast
  also have "\<dots> = Inr [HRef 33]"
    by (simp add: ex_nyuki_eq ex_carol_def get_or_empty_def ex_record_x1_def
        ex_nyuki_objects_def ex_objects_def report_def
        report_store_def h_getitem_def h_iterate_def h_task_id_def h_dict_key_def key_value_def
        alloc_def dict_merge_def Let_def)
  finally have 5: "fst (websocket_ready ex_nyuki ex_carol) = Inr [HRef 33]" .
  have 6: "map_of (objs (objects (snd (websocket_ready ex_nyuki ex_carol))) 33) ''exec''
       = Some (HRef 24)"
    "map_of (objs (objects (snd (websocket_ready ex_nyuki ex_carol))) 24) ''id''
       = Some (HStr ''x1'')"
    by (simp_all add: websocket_ready_def ex_nyuki_eq ex_carol_def get_or_empty_def ex_record_x1_def
        ex_nyuki_objects_def ex_objects_def report_def
        report_store_def h_getitem_def h_iterate_def h_task_id_def h_dict_key_def key_value_def
        alloc_def dict_merge_def Let_def)
  from ex_nyuki_ok l l' 1 2 3 4 5 6 show ?thesis by (intro conjI)
qed

section \<open>The invariants hold in every state that the handlers can produce\<close>

lemma set_update_subset: "set (AList.update k v al) \<subseteq> insert (k, v) (set al)"
  by (induction al) auto

lemma set_delete_subset: "set (AList.delete k al) \<subseteq> set al"
  by (auto simp: AList.delete_eq)

lemma registry_ok_get:
  assumes "registry_ok rw"
  shows "distinct (map fst (get_or_empty rw org))"
    and "list_all (\<lambda>(exec_id, w). organization w = org \<and> uid (wf_instance w) = exec_id)
           (get_or_empty rw org)"
proof -
  show "distinct (map fst (get_or_empty rw org))"
  proof (cases "map_of rw org")
    case None
    then show ?thesis by (simp add: get_or_empty_def)
  next
    case (Some wfs)
    then have "(org, wfs) \<in> set rw" by (rule map_of_SomeD)
    with assms Some show ?thesis
      by (auto simp: registry_ok_def list_all_iff get_or_empty_def)
  qed
  show "list_all (\<lambda>(exec_id, w). organization w = org \<and> uid (wf_instance w) = exec_id)
           (get_or_empty rw org)"
  proof (cases "map_of rw org")
    case None
    then show ?thesis by (simp add: get_or_empty_def)
  next
    case (Some wfs)
    then have "(org, wfs) \<in> set rw" by (rule map_of_SomeD)
    with assms Some show ?thesis
      by (auto simp: registry_ok_def list_all_iff get_or_empty_def)
  qed
qed

lemma new_workflow_registry:
  "running_workflows (snd (new_workflow s tmpl inst org kwargs)) =
     AList.update org
       (AList.update (uid inst) (fst (new_workflow s tmpl inst org kwargs))
          (get_or_empty (running_workflows s) org))
       (running_workflows s)"
  "organization (fst (new_workflow s tmpl inst org kwargs)) = org"
  "wf_instance (fst (new_workflow s tmpl inst org kwargs)) = inst"
  "ws_clients (snd (new_workflow s tmpl inst org kwargs)) = ws_clients s"
  by (simp_all add: new_workflow_def alloc_def Let_def)

lemma new_workflow_ok:
  assumes "registry_ok (running_workflows s)"
  shows "registry_ok (running_workflows (snd (new_workflow s tmpl inst org kwargs)))"
proof -
  let ?w = "fst (new_workflow s tmpl inst org kwargs)"
  let ?old = "get_or_empty (running_workflows s) org"
  have d: "distinct (map fst (AList.update (uid inst) ?w ?old))"
    using registry_ok_get(1) [OF assms] by (simp add: distinct_update)
  have "list_all (\<lambda>(exec_id, w). organization w = org \<and> uid (wf_instance w) = exec_id)
          (AList.update (uid inst) ?w ?old)"
    using registry_ok_get(2) [OF assms, of org] set_update_subset [of "uid inst" ?w ?old]
    by (auto simp: list_all_iff new_workflow_registry)
  with d show ?thesis
    using registry_ok_update [OF assms] by (simp add: new_workflow_registry)
qed

lemma finalize_registry:
  assumes "registry_ok (running_workflows s)"
  shows "registry_ok (running_workflows (snd (finalize env s wflow e)))"
proof (cases "del_workflow (running_workflows s) (organization wflow) e")
  case (Inl err)
  then show ?thesis
    using assms by (simp add: finalize_def Let_def split: sum.splits prod.splits)
next
  case (Inr rw)
  then obtain wfs where m: "map_of (running_workflows s) (organization wflow) = Some wfs"
    and rw: "rw = AList.update (organization wflow) (AList.delete e wfs) (running_workflows s)"
    by (auto simp: del_workflow_def split: option.splits)
  from m have "get_or_empty (running_workflows s) (organization wflow) = wfs"
    by (simp add: get_or_empty_def)
  with registry_ok_get [OF assms, of "organization wflow"]
  have "distinct (map fst (AList.delete e wfs))"
    and "list_all (\<lambda>(exec_id, w). organization w = organization wflow
                      \<and> uid (wf_instance w) = exec_id) (AList.delete e wfs)"
    using set_delete_subset [of e wfs] by (auto simp: distinct_delete list_all_iff)
  then have "registry_ok rw"
    unfolding rw by (rule registry_ok_update [OF assms])
  with Inr assms show ?thesis
    by (simp add: finalize_def Let_def split: sum.splits prod.splits)
qed

lemma report_workflow_ok:
  assumes "registry_ok (running_workflows s)"
  shows "registry_ok (running_workflows (snd (report_workflow env s event utcnow)))"
    and "ws_clients (snd (report_workflow env s event utcnow)) = ws_clients s"
proof -
  let ?s' = "snd (report_workflow env s event utcnow)"
  have "running_workflows ?s' = running_workflows s \<and> ws_clients ?s' = ws_clients s
        \<or> (\<exists>wflow. running_workflows ?s' =
               running_workflows (snd (finalize env s wflow (workflow_exec_id event)))
             \<and> ws_clients ?s' = ws_clients (snd (finalize env s wflow (workflow_exec_id event))))"
  proof (cases "find_wflow (running_workflows s) (workflow_exec_id event)")
    case None
    then show ?thesis by (simp add: report_workflow_def)
  next
    case (Some wflow)
    show ?thesis
    proof (cases "data_type event = state_end \<or> data_type event = state_error")
      case False
      with Some show ?thesis by (simp add: report_workflow_def Let_def)
    next
      case True
      obtain r s1 where f: "finalize env s wflow (workflow_exec_id event) = (r, s1)"
        by (cases "finalize env s wflow (workflow_exec_id event)")
      have "running_workflows ?s' = running_workflows s1 \<and> ws_clients ?s' = ws_clients s1"
        using Some True f by (cases r) (simp_all add: report_workflow_def Let_def)
      with f show ?thesis by (metis snd_conv)
    qed
  qed
  then show "registry_ok (running_workflows ?s')" and "ws_clients ?s' = ws_clients s"
    using assms finalize_registry [OF assms] by (auto simp: finalize_keeps)
qed

lemma websocket_ready_fields:
  "ws_clients (snd (websocket_ready s c)) =
     AList.update (header_organization c)
       (get_or_empty (ws_clients s) (header_organization c) @ [c]) (ws_clients s)"
  "running_workflows (snd (websocket_ready s c)) = running_workflows s"
  by (simp_all add: websocket_ready_def Let_def split: prod.splits)

lemma websocket_ready_ok:
  assumes "clients_ok (ws_clients s)"
  shows "clients_ok (ws_clients (snd (websocket_ready s c)))"
proof -
  let ?org = "header_organization c"
  let ?new = "get_or_empty (ws_clients s) ?org @ [c]"
  let ?ok = "\<lambda>(org, clients). list_all (\<lambda>c. header_organization c = org) clients"
  have "\<forall>x \<in> set (get_or_empty (ws_clients s) ?org). header_organization x = ?org"
    using clients_ok_listed [OF assms] by blast
  then have "?ok (?org, ?new)" by (simp add: list_all_iff)
  moreover have "\<forall>p \<in> set (ws_clients s). ?ok p"
    using assms by (simp add: clients_ok_def list_all_iff)
  ultimately have "\<forall>p \<in> set (AList.update ?org ?new (ws_clients s)). ?ok p"
    using set_update_subset [of ?org ?new "ws_clients s"] by blast
  then show ?thesis
    using assms by (simp add: websocket_ready_fields clients_ok_def list_all_iff distinct_update)
qed

lemma websocket_close_ok:
  assumes "clients_ok (ws_clients s)"
  shows "clients_ok (ws_clients (websocket_close s c))"
proof -
  let ?f = "\<lambda>(org, clients). (org, remove1 c clients)"
  let ?ok = "\<lambda>(org, clients). list_all (\<lambda>c. header_organization c = org) clients"
  have keys: "map fst (map ?f (ws_clients s)) = map fst (ws_clients s)"
    by (induction "ws_clients s") auto
  have "?ok (?f p)" if "?ok p" for p
  proof -
    obtain org cs where p: "p = (org, cs)" by (cases p)
    have "set (remove1 c cs) \<subseteq> set cs" by (rule set_remove1_subset)
    with that p show ?thesis by (auto simp: list_all_iff)
  qed
  moreover have "\<forall>p \<in> set (ws_clients s). ?ok p"
    using assms by (simp add: clients_ok_def list_all_iff)
  ultimately have all: "list_all ?ok (map ?f (ws_clients s))"
    by (auto simp: list_all_iff)
  have "distinct (map fst (map ?f (ws_clients s)))"
    unfolding keys using assms by (simp add: clients_ok_def)
  with all have "clients_ok (map ?f (ws_clients s))"
    unfolding clients_ok_def by (intro conjI)
  then show ?thesis by (simp add: websocket_close_def)
qed

lemma reachable_ok:
  "reachable s \<Longrightarrow> registry_ok (running_workflows s) \<and> clients_ok (ws_clients s)"
proof (induction rule: reachable.induct)
  case (start h)
  show ?case by (simp add: WorkflowNyuki_init_def registry_ok_def clients_ok_def)
next
  case (registered s tmpl inst org kwargs)
  then show ?case
    using new_workflow_ok [of s] by (simp add: new_workflow_registry)
next
  case (reported s env event utcnow)
  then show ?case
    using report_workflow_ok [of s] by simp
next
  case (connected s c)
  then show ?case
    using websocket_ready_ok [of s] by (simp add: websocket_ready_fields)
next
  case (closed s c)
  then show ?case
    using websocket_close_ok [of s] by (simp add: websocket_close_def)
qed

end
